theory Spec2Isabelle
  imports Complex_Main "HOL-Library.Multiset"
begin

section \<open>Shared Python primitives\<close>

text \<open>
  Exceptions of the source are values: every \<^verbatim>\<open>raise ValueError(...)\<close> is the left
  injection of a sum. Python's \<^verbatim>\<open>int\<close> is \<^typ>\<open>int\<close>; a \<^verbatim>\<open>str\<close> is a list of
  characters, the character type left open where the function never looks at a character.
\<close>

datatype error = ValueError

text \<open>
  Slices \<^verbatim>\<open>xs[start:stop]\<close>, either bound optional (\<^verbatim>\<open>xs[:stop]\<close>, \<^verbatim>\<open>xs[start:]\<close>).
  A negative bound counts from the end; every bound is clamped to the sequence, so a
  slice never raises.
\<close>

definition py_bound :: "int \<Rightarrow> 'a list \<Rightarrow> nat" where
  "py_bound k xs = (if k < 0 then nat (int (length xs) + k) else min (nat k) (length xs))"

definition py_slice :: "int option \<Rightarrow> int option \<Rightarrow> 'a list \<Rightarrow> 'a list" where
  "py_slice start stop xs =
     (let lo = (case start of None \<Rightarrow> 0 | Some k \<Rightarrow> py_bound k xs);
          hi = (case stop of None \<Rightarrow> length xs | Some k \<Rightarrow> py_bound k xs)
      in take (hi - lo) (drop lo xs))"

text \<open>\<^verbatim>\<open>s * n\<close> on a string: \<open>n\<close> copies of \<open>s\<close>, none when \<open>n\<close> is not positive.\<close>

definition py_repeat :: "'a list \<Rightarrow> int \<Rightarrow> 'a list" where
  "py_repeat s n = concat (replicate (nat n) s)"

section \<open>validators.py\<close>

text \<open>
  \<open>is_valid_credit_card\<close> looks at the characters, so here a \<^verbatim>\<open>str\<close> is the list of its
  code points, natural numbers; \<open>codepoints\<close> reads a literal.

  Three tables of the Python runtime decide how a character is treated: the class
  \<^verbatim>\<open>\s\<close> of a \<^verbatim>\<open>str\<close> pattern (Unicode white space), \<^verbatim>\<open>str.isdigit\<close> on one character,
  and \<^verbatim>\<open>int(d)\<close> on a string of one character, which gives the value of a decimal
  digit and raises \<open>ValueError\<close> on any other character (\<open>None\<close> here). The tables
  belong to the Unicode database of the runtime, not to the repository: they are a
  parameter of the model, and the theorems hold whatever they are.
\<close>

datatype ucd =
  UCD (py_isspace: "nat \<Rightarrow> bool") (py_isdigit: "nat \<Rightarrow> bool") (py_int: "nat \<Rightarrow> int option")

definition codepoints :: "string \<Rightarrow> nat list" where
  "codepoints s = map of_char s"

text \<open>
  The tables of Python on the code points below U+0100, and empty above: white space is
  9 to 13, 28 to 32, 133 and 160; \<^verbatim>\<open>isdigit\<close> holds of \<open>0\<close> to \<open>9\<close> and of the superscript
  digits U+00B2, U+00B3 and U+00B9; \<^verbatim>\<open>int\<close> converts \<open>0\<close> to \<open>9\<close> only. It serves for
  concrete inputs below U+0100, where the validator consults no other entry.
\<close>

definition latin1_ucd :: ucd where
  "latin1_ucd =
     UCD (\<lambda>n. (9 \<le> n \<and> n \<le> 13) \<or> (28 \<le> n \<and> n \<le> 32) \<or> n = 133 \<or> n = 160)
         (\<lambda>n. (48 \<le> n \<and> n \<le> 57) \<or> n = 178 \<or> n = 179 \<or> n = 185)
         (\<lambda>n. if 48 \<le> n \<and> n \<le> 57 then Some (int n - 48) else None)"

text \<open>\<^verbatim>\<open>s.isdigit()\<close>: every character is a digit and there is at least one.\<close>

definition str_isdigit :: "ucd \<Rightarrow> nat list \<Rightarrow> bool" where
  "str_isdigit db s = (s \<noteq> [] \<and> list_all (py_isdigit db) s)"

text \<open>\<^verbatim>\<open>[int(d) for d in cleaned]\<close>: the first character that does not convert raises.\<close>

fun digits_of :: "ucd \<Rightarrow> nat list \<Rightarrow> error + int list" where
  "digits_of db [] = Inr []"
| "digits_of db (d # rest) =
     (case py_int db d of
        None \<Rightarrow> Inl ValueError
      | Some v \<Rightarrow> (case digits_of db rest of Inl e \<Rightarrow> Inl e | Inr vs \<Rightarrow> Inr (v # vs)))"

text \<open>
  \<^verbatim>\<open>xs[0::2]\<close>, every second element from the first. The slices of the source run
  backwards: \<^verbatim>\<open>digits[-1::-2]\<close> starts at the last element and \<^verbatim>\<open>digits[-2::-2]\<close> at the
  one before it (none if there is no such element).
\<close>

fun every_second :: "'a list \<Rightarrow> 'a list" where
  "every_second [] = []"
| "every_second [x] = [x]"
| "every_second (x # y # rest) = x # every_second rest"

definition odd_digits :: "int list \<Rightarrow> int list" where
  "odd_digits digits = every_second (rev digits)"

definition even_digits :: "int list \<Rightarrow> int list" where
  "even_digits digits = every_second (drop 1 (rev digits))"

text \<open>
  \<^verbatim>\<open>
  for digit in even_digits:
      doubled = digit * 2
      checksum += doubled - 9 if doubled > 9 else doubled
  \<close>
\<close>

fun luhn_loop :: "int \<Rightarrow> int list \<Rightarrow> int" where
  "luhn_loop checksum [] = checksum"
| "luhn_loop checksum (digit # rest) =
     (let doubled = digit * 2
      in luhn_loop (checksum + (if doubled > 9 then doubled - 9 else doubled)) rest)"

text \<open>
  \<^verbatim>\<open>
  def is_valid_credit_card(number):
      if not number or not isinstance(number, str):
          return False
      cleaned = re.sub(r'[\s\-]', '', number)
      if not cleaned.isdigit() or len(cleaned) < 13 or len(cleaned) > 19:
          return False
      digits = [int(d) for d in cleaned]
      odd_digits = digits[-1::-2]
      even_digits = digits[-2::-2]
      checksum = sum(odd_digits)
      for digit in even_digits: ...
      return checksum % 10 == 0
  \<close>
\<close>

text \<open>\<^verbatim>\<open>re.sub(r'[\s\-]', '', number)\<close>; the dash is code point 45.\<close>

definition cleaned_of :: "ucd \<Rightarrow> nat list \<Rightarrow> nat list" where
  "cleaned_of db number = filter (\<lambda>c. \<not> (py_isspace db c \<or> c = 45)) number"

definition is_valid_credit_card :: "ucd \<Rightarrow> nat list \<Rightarrow> error + bool" where
  "is_valid_credit_card db number =
     (if number = [] then Inr False
      else (let cleaned = cleaned_of db number
            in if \<not> str_isdigit db cleaned \<or> length cleaned < 13 \<or> length cleaned > 19
               then Inr False
               else (case digits_of db cleaned of
                       Inl e \<Rightarrow> Inl e
                     | Inr digits \<Rightarrow>
                         Inr (luhn_loop (sum_list (odd_digits digits)) (even_digits digits) mod 10 = 0))))"

text \<open>
  The checksum in the words of the specification: position \<open>p\<close> from the right
  (counted from 1) holds \<open>rev digits ! (p - 1)\<close>; a digit at an odd position counts
  unchanged, a digit at an even position counts as its double, minus 9 when the double
  exceeds 9.
\<close>

definition spec_luhn_sum :: "int list \<Rightarrow> int" where
  "spec_luhn_sum digits =
     sum_list (map (\<lambda>i. let d = rev digits ! i
                         in if odd (i + 1) then d else (if 2 * d > 9 then 2 * d - 9 else 2 * d))
                   [0..<length digits])"

text \<open>
  The validator in the words of the specification: only spaces (code point 32) and dashes
  are stripped, a character that is not a digit \<open>0\<close> to \<open>9\<close> (48 to 57) is rejected.
\<close>

definition spec_is_valid_credit_card :: "nat list \<Rightarrow> bool" where
  "spec_is_valid_credit_card s =
     (let stripped = filter (\<lambda>c. c \<noteq> 32 \<and> c \<noteq> 45) s
      in if \<not> list_all (\<lambda>c. 48 \<le> c \<and> c \<le> 57) stripped
            \<or> length stripped < 13 \<or> length stripped > 19
         then False
         else spec_luhn_sum (map (\<lambda>c. int c - 48) stripped) mod 10 = 0)"

section \<open>strings.py\<close>

text \<open>
  \<^verbatim>\<open>
  def truncate(text, max_length, suffix="..."):
      if not text:
          return ""
      if max_length <= len(suffix):
          raise ValueError(...)
      if len(text) <= max_length:
          return text
      truncated_length = max_length - len(suffix)
      return text[:truncated_length] + suffix
  \<close>
\<close>

definition truncate :: "'c list \<Rightarrow> int \<Rightarrow> 'c list \<Rightarrow> error + 'c list" where
  "truncate text max_length suffix =
     (if text = [] then Inr []
      else if max_length \<le> int (length suffix) then Inl ValueError
      else if int (length text) \<le> max_length then Inr text
      else (let truncated_length = max_length - int (length suffix)
            in Inr (py_slice None (Some truncated_length) text @ suffix)))"

text \<open>
  \<^verbatim>\<open>
  def mask_sensitive(text, visible_chars=4, mask_char="*"):
      if not text:
          return ""
      if len(text) <= 3 or visible_chars >= len(text):
          return text
      masked_length = len(text) - visible_chars
      return (mask_char * masked_length) + text[-visible_chars:]
  \<close>
\<close>

definition mask_sensitive :: "'c list \<Rightarrow> int \<Rightarrow> 'c list \<Rightarrow> 'c list" where
  "mask_sensitive text visible_chars mask_char =
     (if text = [] then []
      else if length text \<le> 3 \<or> visible_chars \<ge> int (length text) then text
      else (let masked_length = int (length text) - visible_chars
            in py_repeat mask_char masked_length @ py_slice (Some (- visible_chars)) None text))"

section \<open>collections.py\<close>

text \<open>
  \<^verbatim>\<open>
  def partition(iterable, predicate):
      true_items = []; false_items = []
      for item in iterable:
          if predicate(item): true_items.append(item)
          else: false_items.append(item)
      return true_items, false_items
  \<close>
  The loop carries the two lists; \<open>append\<close> adds at the end.
\<close>

fun partition_loop :: "('a \<Rightarrow> bool) \<Rightarrow> 'a list \<Rightarrow> 'a list \<Rightarrow> 'a list \<Rightarrow> 'a list \<times> 'a list" where
  "partition_loop predicate [] true_items false_items = (true_items, false_items)"
| "partition_loop predicate (item # rest) true_items false_items =
     (if predicate item
      then partition_loop predicate rest (true_items @ [item]) false_items
      else partition_loop predicate rest true_items (false_items @ [item]))"

definition partition_py :: "'a list \<Rightarrow> ('a \<Rightarrow> bool) \<Rightarrow> 'a list \<times> 'a list" where
  "partition_py iterable predicate = partition_loop predicate iterable [] []"

text \<open>
  \<^verbatim>\<open>range(start, stop, step)\<close> for a non-negative start and a step that is not negative:
  the numbers \<open>start, start + step, ...\<close> below \<open>stop\<close>. A zero step raises in Python;
  \<open>chunk\<close> rules it out before the loop, and the model yields no index for it.
\<close>

function range_from :: "nat \<Rightarrow> nat \<Rightarrow> nat \<Rightarrow> nat list" where
  "range_from i stop step =
     (if step = 0 \<or> stop \<le> i then [] else i # range_from (i + step) stop step)"
  by pat_completeness auto
termination
  by (relation "measure (\<lambda>(i, stop, step). stop - i)") auto

declare range_from.simps [simp del]

text \<open>
  \<^verbatim>\<open>
  def chunk(iterable, size):
      if size < 1:
          raise ValueError(f"Chunk size must be positive, got {size}")
      items = list(iterable)
      for i in range(0, len(items), size):
          yield items[i:i + size]
  \<close>
  \<open>chunk\<close> is a generator: its body, the check of \<open>size\<close> included, runs when the
  generator is consumed. The model is the consumed generator, \<^verbatim>\<open>list(chunk(iterable, size))\<close>:
  the groups in the order they are yielded, or the error.
\<close>

definition chunk :: "'a list \<Rightarrow> int \<Rightarrow> error + 'a list list" where
  "chunk iterable sz =
     (if sz < 1 then Inl ValueError
      else (let items = iterable
            in Inr (map (\<lambda>i. py_slice (Some (int i)) (Some (int i + sz)) items)
                        (range_from 0 (length items) (nat sz)))))"

text \<open>
  A \<^verbatim>\<open>dict\<close> keeps its keys in insertion order: an association list with distinct keys.
  \<^verbatim>\<open>d[k] = v\<close> replaces the value of a key that is present, where it stands, and adds a
  new key at the end.
\<close>

fun dict_setitem :: "('k \<times> 'v) list \<Rightarrow> 'k \<Rightarrow> 'v \<Rightarrow> ('k \<times> 'v) list" where
  "dict_setitem [] k v = [(k, v)]"
| "dict_setitem ((k', v') # d) k v =
     (if k' = k then (k', v) # d else (k', v') # dict_setitem d k v)"

definition dict_keys :: "('k \<times> 'v) list \<Rightarrow> 'k list" where
  "dict_keys d = map fst d"

text \<open>
  \<^verbatim>\<open>
  class OrderedSet(MutableSet):
      def __init__(self, iterable=None):
          self.items = {}
          if iterable is not None:
              for item in iterable:
                  self.add(item)
      def add(self, value):
          self.items[value] = None
      def __iter__(self):
          return iter(self.items.keys())
  \<close>
  The dictionary's values are all \<^verbatim>\<open>None\<close>, the unit value here.
\<close>

datatype 'a OrderedSet = OrderedSet (items: "('a \<times> unit) list")

definition add :: "'a OrderedSet \<Rightarrow> 'a \<Rightarrow> 'a OrderedSet" where
  "add self v = OrderedSet (dict_setitem (items self) v ())"

fun init_loop :: "'a OrderedSet \<Rightarrow> 'a list \<Rightarrow> 'a OrderedSet" where
  "init_loop self [] = self"
| "init_loop self (item # rest) = init_loop (add self item) rest"

definition OrderedSet_init :: "'a list option \<Rightarrow> 'a OrderedSet" where
  "OrderedSet_init iterable =
     (case iterable of None \<Rightarrow> OrderedSet [] | Some xs \<Rightarrow> init_loop (OrderedSet []) xs)"

text \<open>\<^verbatim>\<open>list(s)\<close> runs \<^verbatim>\<open>__iter__\<close>: the keys in insertion order.\<close>

definition list_of :: "'a OrderedSet \<Rightarrow> 'a list" where
  "list_of self = dict_keys (items self)"

text \<open>
  \<^verbatim>\<open>
  def unique(iterable, key_func=None):
      seen = set(); result = []
      for item in iterable:
          key = key_func(item) if key_func else item
          if key not in seen:
              seen.add(key)
              result.append(item)
      return result
  \<close>
  Keys and items are Python values alike, so they share a type. Without a key function
  the key is the item itself.
\<close>

fun unique_loop :: "('a \<Rightarrow> 'a) option \<Rightarrow> 'a list \<Rightarrow> 'a set \<Rightarrow> 'a list \<Rightarrow> 'a list" where
  "unique_loop key_func [] seen result = result"
| "unique_loop key_func (item # rest) seen result =
     (let key = (case key_func of Some f \<Rightarrow> f item | None \<Rightarrow> item)
      in if key \<notin> seen
         then unique_loop key_func rest (insert key seen) (result @ [item])
         else unique_loop key_func rest seen result)"

definition unique :: "'a list \<Rightarrow> ('a \<Rightarrow> 'a) option \<Rightarrow> 'a list" where
  "unique iterable key_func = unique_loop key_func iterable {} []"

text \<open>
  The first-occurrence deduplication in the words of the specification: the element at
  position \<open>i\<close> is kept exactly if it does not occur before \<open>i\<close>.
\<close>

definition first_occurrences :: "'a list \<Rightarrow> 'a list" where
  "first_occurrences xs =
     map (\<lambda>i. xs ! i) (filter (\<lambda>i. xs ! i \<notin> set (take i xs)) [0..<length xs])"

text \<open>
  The items \<open>flatten\<close> walks over. The source tells them apart by two tests only:
  \<^verbatim>\<open>isinstance(item, (str, bytes, dict))\<close> and \<^verbatim>\<open>hasattr(item, '__iter__')\<close>. So an item
  is a string, a byte string, a dictionary, some other iterable (a list, a tuple, ...)
  with its elements, or a value that cannot be iterated.
\<close>

datatype item =
    Str string
  | Bytes "nat list"
  | Dict "(item \<times> item) list"
  | Iter "item list"
  | Scalar int

text \<open>
  \<^verbatim>\<open>
  def flatten(iterable, depth=1):
      result = []
      for item in iterable:
          if isinstance(item, (str, bytes, dict)):
              result.append(item)
          elif hasattr(item, '__iter__') and depth != 0:
              new_depth = depth - 1 if depth > 0 else -1
              result.extend(flatten(item, depth=new_depth))
          else:
              result.append(item)
      return result
  \<close>
  The model returns what the loop appends for the first item, followed by what it
  appends for the rest.
\<close>

fun flatten :: "item list \<Rightarrow> int \<Rightarrow> item list" where
  "flatten [] depth = []"
| "flatten (Str s # rest) depth = Str s # flatten rest depth"
| "flatten (Bytes b # rest) depth = Bytes b # flatten rest depth"
| "flatten (Dict d # rest) depth = Dict d # flatten rest depth"
| "flatten (Iter xs # rest) depth =
     (if depth \<noteq> 0
      then (let new_depth = (if depth > 0 then depth - 1 else - 1)
            in flatten xs new_depth @ flatten rest depth)
      else Iter xs # flatten rest depth)"
| "flatten (Scalar n # rest) depth = Scalar n # flatten rest depth"

text \<open>An item that \<open>flatten\<close> would expand at a non-zero depth.\<close>

fun expandable :: "item \<Rightarrow> bool" where
  "expandable (Iter xs) = True"
| "expandable _ = False"

text \<open>\<^verbatim>\<open>d[k]\<close> where the key is present, \<^verbatim>\<open>k in d\<close> otherwise: the value of the key, if any.\<close>

fun dict_get :: "('k \<times> 'v) list \<Rightarrow> 'k \<Rightarrow> 'v option" where
  "dict_get [] k = None"
| "dict_get ((k', v) # d) k = (if k' = k then Some v else dict_get d k)"

text \<open>
  \<^verbatim>\<open>
  def deep_merge(dict1, dict2):
      result = dict1.copy()
      for key, value in dict2.items():
          if (key in result and isinstance(result[key], dict)
                  and isinstance(value, dict)):
              result[key] = deep_merge(result[key], value)
          else:
              result[key] = value
      return result
  \<close>
  First the function on values: a dictionary is the list of its entries, a nested
  dictionary an \<open>item\<close> built with \<open>Dict\<close>. \<open>merge_into\<close> is the loop, carrying \<open>result\<close>.
\<close>

fun merge_into :: "(item \<times> item) list \<Rightarrow> (item \<times> item) list \<Rightarrow> (item \<times> item) list" where
  "merge_into result [] = result"
| "merge_into result ((key, val) # rest) =
     (case val of
        Dict d2 \<Rightarrow>
          (case dict_get result key of
             Some (Dict d1) \<Rightarrow> merge_into (dict_setitem result key (Dict (merge_into d1 d2))) rest
           | _ \<Rightarrow> merge_into (dict_setitem result key val) rest)
      | _ \<Rightarrow> merge_into (dict_setitem result key val) rest)"

definition deep_merge :: "(item \<times> item) list \<Rightarrow> (item \<times> item) list \<Rightarrow> (item \<times> item) list" where
  "deep_merge dict1 dict2 = (let result = dict1 in merge_into result dict2)"

text \<open>
  Then the function on objects, where mutation and sharing show. A dictionary is an
  object in a store, at an address; a value held by a dictionary is a reference to a
  dictionary object or a value without identity. The store maps the allocated addresses
  to their objects and comes with the next free address; allocation takes that address.
\<close>

datatype hval = HStr string | HBytes "nat list" | HRef nat | HIter "item list" | HScalar int

type_synonym store = "nat \<Rightarrow> (item \<times> hval) list option"

text \<open>
  \<open>deep_merge_h\<close> is the source statement by statement. \<^verbatim>\<open>dict1.copy()\<close> allocates a new
  object with the entries of \<open>dict1\<close> (a shallow copy: nested dictionaries are shared).
  The loop runs over the entries \<open>dict2\<close> has when it starts, and the model fails if
  \<open>dict2\<close> is seen to change under the loop. \<^verbatim>\<open>result[key] = ...\<close> writes to the object
  \<open>result\<close> in the store. The first argument bounds the depth of the recursion (Python
  raises \<^verbatim>\<open>RecursionError\<close> on a cyclic structure); \<open>None\<close> is "no result".
\<close>

fun deep_merge_h :: "nat \<Rightarrow> store \<times> nat \<Rightarrow> nat \<Rightarrow> nat \<Rightarrow> ((store \<times> nat) \<times> nat) option"
  and merge_loop :: "nat \<Rightarrow> store \<times> nat \<Rightarrow> nat \<Rightarrow> nat \<Rightarrow> (item \<times> hval) list
                       \<Rightarrow> (item \<times> hval) list \<Rightarrow> (store \<times> nat) option" where
  "deep_merge_h 0 st dict1 dict2 = None"
| "deep_merge_h (Suc n) st dict1 dict2 =
     (case fst st dict1 of None \<Rightarrow> None
      | Some d1 \<Rightarrow>
         (case fst st dict2 of None \<Rightarrow> None
          | Some d2 \<Rightarrow>
             (let result = snd st
              in case merge_loop n ((fst st)(result \<mapsto> d1), Suc (snd st)) result dict2 d2 d2 of
                   None \<Rightarrow> None
                 | Some st' \<Rightarrow> Some (st', result))))"
| "merge_loop n st result dict2 d2 [] = Some st"
| "merge_loop n st result dict2 d2 ((key, val) # rest) =
     (if fst st dict2 \<noteq> Some d2 then None
      else case fst st result of None \<Rightarrow> None
      | Some cur \<Rightarrow>
         (case val of
            HRef y \<Rightarrow>
              (case dict_get cur key of
                 Some (HRef x) \<Rightarrow>
                   (case deep_merge_h n st x y of None \<Rightarrow> None
                    | Some (st', r) \<Rightarrow>
                       (case fst st' result of None \<Rightarrow> None
                        | Some cur' \<Rightarrow>
                            merge_loop n ((fst st')(result \<mapsto> dict_setitem cur' key (HRef r)), snd st')
                              result dict2 d2 rest))
               | _ \<Rightarrow> merge_loop n ((fst st)(result \<mapsto> dict_setitem cur key val), snd st)
                        result dict2 d2 rest)
          | _ \<Rightarrow> merge_loop n ((fst st)(result \<mapsto> dict_setitem cur key val), snd st)
                   result dict2 d2 rest))"

text \<open>
  What a stored value stands for: the value with every reference replaced by the
  dictionary it points to, followed to depth \<open>n\<close>. It is \<open>None\<close> if a reference
  dangles or the structure is deeper than \<open>n\<close>, as a cyclic one is for every \<open>n\<close>.
\<close>

fun abs_val :: "nat \<Rightarrow> store \<Rightarrow> hval \<Rightarrow> item option"
  and abs_items :: "nat \<Rightarrow> store \<Rightarrow> (item \<times> hval) list \<Rightarrow> (item \<times> item) list option" where
  "abs_val n s (HStr x) = Some (Str x)"
| "abs_val n s (HBytes b) = Some (Bytes b)"
| "abs_val n s (HIter xs) = Some (Iter xs)"
| "abs_val n s (HScalar i) = Some (Scalar i)"
| "abs_val 0 s (HRef a) = None"
| "abs_val (Suc n) s (HRef a) =
     (case s a of None \<Rightarrow> None
      | Some d \<Rightarrow> (case abs_items n s d of None \<Rightarrow> None | Some t \<Rightarrow> Some (Dict t)))"
| "abs_items n s [] = Some []"
| "abs_items n s ((k, v) # d) =
     (case abs_val n s v of None \<Rightarrow> None
      | Some v' \<Rightarrow> (case abs_items n s d of None \<Rightarrow> None | Some d' \<Rightarrow> Some ((k, v') # d')))"

text \<open>A state is well formed if nothing is stored at or above the next free address.\<close>

definition wf_state :: "store \<times> nat \<Rightarrow> bool" where
  "wf_state st = (\<forall>a. snd st \<le> a \<longrightarrow> fst st a = None)"

text \<open>
  The part of a store \<open>s\<close> that a loop with result object \<open>R\<close> may rely on: what the
  inputs \<open>s0\<close> hold below \<open>R\<close>, nothing at \<open>R\<close>, and the objects allocated after \<open>R\<close>.
\<close>

definition frame :: "store \<Rightarrow> nat \<Rightarrow> store \<Rightarrow> store" where
  "frame s0 R s = (\<lambda>x. if x < R then s0 x else if x = R then None else s x)"

section \<open>enumerable_list.py\<close>

text \<open>
  The class holds one field, \<^verbatim>\<open>_items\<close>. The sentinel \<^verbatim>\<open>_MISSING\<close> of the optional
  arguments is \<open>None\<close>; a value supplied by the caller is \<open>Some\<close>. Python's values are
  untyped, so accumulator and items share the one type \<open>'v\<close>.
\<close>

datatype 'v EnumerableList = EnumerableList (items_of: "'v list")

text \<open>The \<^verbatim>\<open>for item in iterator: acc = func(acc, item)\<close> loop.\<close>

fun reduce_loop :: "('v \<Rightarrow> 'v \<Rightarrow> 'v) \<Rightarrow> 'v \<Rightarrow> 'v list \<Rightarrow> 'v" where
  "reduce_loop func acc [] = acc"
| "reduce_loop func acc (item # rest) = reduce_loop func (func acc item) rest"

text \<open>
  \<^verbatim>\<open>
  def reduce(self, func, initial=_MISSING):
      iterator = iter(self._items)
      if initial is _MISSING:
          try: acc = next(iterator)
          except StopIteration as exc: raise ValueError(...) from exc
      else:
          acc = initial
      for item in iterator: acc = func(acc, item)
      return acc
  \<close>
\<close>

definition reduce :: "'v EnumerableList \<Rightarrow> ('v \<Rightarrow> 'v \<Rightarrow> 'v) \<Rightarrow> 'v option \<Rightarrow> error + 'v" where
  "reduce self func initial =
     (case initial of
        None \<Rightarrow> (case items_of self of
                   [] \<Rightarrow> Inl ValueError
                 | first_item # iterator \<Rightarrow> Inr (reduce_loop func first_item iterator))
      | Some acc \<Rightarrow> Inr (reduce_loop func acc (items_of self)))"

text \<open>
  \<^verbatim>\<open>
  def first(self, default=_MISSING):
      if self._items: return self._items[0]
      if default is _MISSING: raise ValueError("EnumerableList is empty")
      return default
  \<close>
\<close>

definition first :: "'v EnumerableList \<Rightarrow> 'v option \<Rightarrow> error + 'v" where
  "first self dflt =
     (case items_of self of
        item # _ \<Rightarrow> Inr item
      | [] \<Rightarrow> (case dflt of None \<Rightarrow> Inl ValueError | Some d \<Rightarrow> Inr d))"

section \<open>http_client.py\<close>

















section \<open>Theorems\<close>

subsection \<open>partition\<close>

lemma partition_loop_filter:
  "partition_loop p xs t f = (t @ filter p xs, f @ filter (\<lambda>x. \<not> p x) xs)"
  by (induction xs arbitrary: t f) simp_all

text \<open>
  Claim C7. For every input sequence and predicate, \<open>partition\<close> returns the pair of the
  elements that satisfy the predicate and of the remaining elements, each in the order of
  the input; the two lists together hold every element of the input exactly as often as
  the input does. On \<open>[1,2,3,4,5,6]\<close> with the evenness test the result is
  \<open>([2,4,6],[1,3,5])\<close>.
\<close>

theorem partition_spec:
  "partition_py xs p = (filter p xs, filter (\<lambda>x. \<not> p x) xs)
   \<and> mset (fst (partition_py xs p) @ snd (partition_py xs p)) = mset xs
   \<and> partition_py [1, 2, 3, 4, 5, 6 :: int] (\<lambda>x. x mod 2 = 0) = ([2, 4, 6], [1, 3, 5])"
proof -
  have eq: "\<And>(ys :: 'b list) q. partition_py ys q = (filter q ys, filter (\<lambda>x. \<not> q x) ys)"
    by (simp add: partition_py_def partition_loop_filter)
  have "mset (filter p xs @ filter (\<lambda>x. \<not> p x) xs) = mset xs"
    by simp
  moreover have "partition_py [1, 2, 3, 4, 5, 6 :: int] (\<lambda>x. x mod 2 = 0) = ([2, 4, 6], [1, 3, 5])"
    by (simp add: partition_py_def)
  ultimately show ?thesis
    using eq [of xs p] by simp
qed

subsection \<open>EnumerableList.reduce and first\<close>

lemma reduce_loop_foldl: "reduce_loop f a xs = foldl f a xs"
  by (induction xs arbitrary: a) simp_all

text \<open>
  Claim C9. Without an initial value, \<open>reduce\<close> fails exactly on the empty list, and on
  a list \<open>x # xs\<close> it is the left fold of the function over \<open>xs\<close> from \<open>x\<close>; with an
  initial value it never fails and is the left fold over all items from that value.
  Without a default, \<open>first\<close> fails exactly on the empty list and otherwise returns the
  first item; with a default it returns the default on the empty list and the first item
  on any other.
\<close>

theorem reduce_first_spec:
  "(isl (reduce (EnumerableList xs) f None) \<longleftrightarrow> xs = [])
   \<and> reduce (EnumerableList []) f None = Inl ValueError
   \<and> reduce (EnumerableList (x # xs)) f None = Inr (foldl f x xs)
   \<and> reduce (EnumerableList xs) f (Some a) = Inr (foldl f a xs)
   \<and> (isl (first (EnumerableList xs) None) \<longleftrightarrow> xs = [])
   \<and> first (EnumerableList []) None = Inl ValueError
   \<and> first (EnumerableList (x # xs)) d = Inr x
   \<and> first (EnumerableList []) (Some b) = Inr b"
proof (cases xs)
  case Nil
  then show ?thesis
    by (simp add: reduce_def first_def reduce_loop_foldl)
next
  case (Cons y ys)
  have "reduce (EnumerableList (y # ys)) f None = Inr (foldl f y ys)"
    by (simp add: reduce_def reduce_loop_foldl)
  moreover have "first (EnumerableList (y # ys)) None = Inr y"
    by (simp add: first_def)
  ultimately show ?thesis
    using Cons by (simp add: reduce_def first_def reduce_loop_foldl)
qed

subsection \<open>Slices\<close>

lemma py_slice_prefix: "0 \<le> k \<Longrightarrow> py_slice None (Some k) xs = take (nat k) xs"
  by (simp add: py_slice_def py_bound_def min_def)

lemma py_slice_whole: "py_slice (Some 0) None xs = xs"
  by (simp add: py_slice_def py_bound_def)

subsection \<open>truncate\<close>

text \<open>
  The claim C3 as it is written, "for every text, \<open>truncate\<close> fails whenever
  \<open>max_length \<le> len(suffix)\<close>", is false at the empty text: the guard
  \<^verbatim>\<open>if not text: return ""\<close> comes before the check of \<open>max_length\<close>.
\<close>

theorem truncate_empty_counterexample:
  "(2::int) \<le> int (length ''...'') \<and> truncate '''' 2 ''...'' = Inr ''''"
  by (simp add: truncate_def)

text \<open>
  Claim C3, amended. An empty text is returned as the empty string, whatever
  \<open>max_length\<close> and the suffix are. For every text that is not empty, every
  \<open>max_length\<close> and every suffix: \<open>truncate\<close> fails with \<open>ValueError\<close> whenever
  \<open>max_length \<le> len(suffix)\<close>; otherwise it returns the text unchanged if
  \<open>len(text) \<le> max_length\<close>, and else the first \<open>max_length - len(suffix)\<close> characters
  of the text followed by the suffix, a string of exactly \<open>max_length\<close> characters that
  ends with the suffix.
\<close>

theorem truncate_spec:
  "truncate [] max_length suffix = Inr []
   \<and> (text \<noteq> [] \<longrightarrow>
        (max_length \<le> int (length suffix) \<longrightarrow> truncate text max_length suffix = Inl ValueError)
      \<and> (int (length suffix) < max_length \<and> int (length text) \<le> max_length
           \<longrightarrow> truncate text max_length suffix = Inr text)
      \<and> (int (length suffix) < max_length \<and> max_length < int (length text)
           \<longrightarrow> truncate text max_length suffix
                 = Inr (take (nat (max_length - int (length suffix))) text @ suffix)
               \<and> int (length (take (nat (max_length - int (length suffix))) text @ suffix))
                 = max_length))"
proof (intro conjI impI)
  show "truncate [] max_length suffix = Inr []"
    by (simp add: truncate_def)
next
  assume "text \<noteq> []" and "max_length \<le> int (length suffix)"
  then show "truncate text max_length suffix = Inl ValueError"
    by (simp add: truncate_def)
next
  assume "text \<noteq> []" and "int (length suffix) < max_length \<and> int (length text) \<le> max_length"
  then show "truncate text max_length suffix = Inr text"
    by (simp add: truncate_def)
next
  assume ne: "text \<noteq> []" and long: "int (length suffix) < max_length \<and> max_length < int (length text)"
  then have pos: "0 \<le> max_length - int (length suffix)" by simp
  show "truncate text max_length suffix
      = Inr (take (nat (max_length - int (length suffix))) text @ suffix)"
    using ne long by (simp add: truncate_def py_slice_prefix [OF pos])
  show "int (length (take (nat (max_length - int (length suffix))) text @ suffix)) = max_length"
    using long by (auto simp: min_def)
qed

text \<open>
  The worked example of the specification, the characters written as code points
  (\<open>8230\<close> is the ellipsis), and one input for each of the other two cases.
\<close>

theorem truncate_spec_witness:
  "truncate [72, 101, 108, 108, 111, 32, 87, 111, 114, 108, 100 :: nat] 8 [8230]
     = Inr [72, 101, 108, 108, 111, 32, 87, 8230]
   \<and> truncate ''Hello World'' 3 ''...'' = Inl ValueError
   \<and> truncate ''Hello'' 5 ''...'' = Inr ''Hello''"
  using truncate_spec [of 8 "[8230]" "[72, 101, 108, 108, 111, 32, 87, 111, 114, 108, 100 :: nat]"]
    truncate_spec [of 3 "''...''" "''Hello World''"]
    truncate_spec [of 5 "''...''" "''Hello''"]
  by simp

subsection \<open>mask_sensitive\<close>

text \<open>
  Claim C10. For every text longer than 3 characters, \<open>mask_sensitive\<close> with
  \<open>visible_chars = 0\<close> returns the mask repeated \<open>len(text)\<close> times followed by the
  whole text (\<^verbatim>\<open>text[-0:]\<close> is \<^verbatim>\<open>text[0:]\<close>). With a mask of one character, as the
  default \<^verbatim>\<open>"*"\<close> is, the result has \<open>2 * len(text)\<close> characters and is not the fully
  masked string.
\<close>

theorem mask_sensitive_zero_visible:
  assumes "3 < length text"
  shows "mask_sensitive text 0 mask_char = concat (replicate (length text) mask_char) @ text
    \<and> mask_sensitive text 0 [m] = replicate (length text) m @ text
    \<and> length (mask_sensitive text 0 [m]) = 2 * length text
    \<and> mask_sensitive text 0 [m] \<noteq> replicate (length text) m"
proof -
  have ne: "text \<noteq> []" using assms by auto
  have gen: "\<And>mc. mask_sensitive text 0 mc = concat (replicate (length text) mc) @ text"
    using assms ne by (simp add: mask_sensitive_def py_slice_whole py_repeat_def)
  have single: "concat (replicate (length text) [m]) = replicate (length text) m"
    by (induction "length text") (simp_all add: replicate_append_same)
  show ?thesis using gen ne single by simp
qed

theorem mask_sensitive_zero_visible_witness:
  "3 < length ''secret'' \<and> mask_sensitive ''secret'' 0 ''*'' = ''******secret''"
  using mask_sensitive_zero_visible [of "''secret''" "''*''" "CHR ''*''"]
  by simp

subsection \<open>chunk\<close>

lemma py_slice_window:
  "0 \<le> sz \<Longrightarrow> py_slice (Some (int i)) (Some (int i + sz)) xs = take (nat sz) (drop i xs)"
  by (cases "i \<le> length xs") (auto simp: py_slice_def py_bound_def min_def nat_add_distrib)

lemma ceil_step: "0 < s \<Longrightarrow> 0 < (d::nat) \<Longrightarrow> (d + s - 1) div s = Suc ((d - 1) div s)"
proof -
  assume s: "0 < s" and d: "0 < d"
  have e: "d + s - 1 = (d - 1) + s" using d by simp
  have "((d - 1) + s) div s = Suc ((d - 1) div s)" using s by simp
  then show ?thesis unfolding e .
qed

lemma range_from_length:
  "0 < s \<Longrightarrow> length (range_from i n s) = (n - i + s - 1) div s"
proof (induction i n s rule: range_from.induct)
  case (1 i n s)
  show ?case
  proof (cases "n \<le> i")
    case True
    then show ?thesis using "1.prems" by (simp add: range_from.simps)
  next
    case False
    then have ih: "length (range_from (i + s) n s) = (n - (i + s) + s - 1) div s"
      using 1 by simp
    have step: "(n - i + s - 1) div s = Suc ((n - i - 1) div s)"
      using ceil_step [of s "n - i"] False "1.prems" by simp
    have "(n - (i + s) + s - 1) div s = (n - i - 1) div s"
    proof (cases "s \<le> n - i")
      case True
      then have "n - (i + s) + s - 1 = n - i - 1" by simp
      then show ?thesis by simp
    next
      case f2: False
      then have "n - (i + s) + s - 1 = s - 1" by simp
      then show ?thesis using f2 "1.prems" by simp
    qed
    then show ?thesis using False "1.prems" ih step by (simp add: range_from.simps)
  qed
qed


lemma neg_div: "0 < (a::int) \<Longrightarrow> 0 < b \<Longrightarrow> - (- a div b) = (a - 1) div b + 1"
proof -
  assume a: "0 < a" and b: "0 < b"
  let ?q = "(a - 1) div b" and ?r = "(a - 1) mod b"
  have d: "a - 1 = ?q * b + ?r" by simp
  have r: "0 \<le> ?r" "?r < b" using b by simp_all
  have "- a = (- ?q - 1) * b + (b - ?r - 1)" using d by (simp add: algebra_simps)
  moreover have "0 \<le> b - ?r - 1" "b - ?r - 1 < b" using r by simp_all
  ultimately have "- a div b = - ?q - 1"
    by (metis div_pos_pos_trivial div_mult_self3 add.commute b less_irrefl add.right_neutral)
  then show ?thesis by simp
qed

lemma ceil_div: "0 < s \<Longrightarrow> \<lceil>real n / real s\<rceil> = int ((n + s - 1) div s)"
proof -
  assume s: "0 < s"
  have "\<lceil>real n / real s\<rceil> = \<lceil>of_int (int n) / (of_int (int s) :: real)\<rceil>" by simp
  also have "\<dots> = - (- int n div int s)" by (rule ceiling_divide_eq_div)
  also have "\<dots> = int ((n + s - 1) div s)"
  proof (cases "n = 0")
    case True
    then show ?thesis using s by simp
  next
    case False
    have "int ((n + s - 1) div s) = int (Suc ((n - 1) div s))"
      using ceil_step [OF s, of n] False by simp
    moreover have "- (- int n div int s) = int ((n - 1) div s) + 1"
    proof -
      have "int ((n - 1) div s) = int (n - 1) div int s" by (simp add: zdiv_int)
      moreover have "int (n - 1) = int n - 1" using False by (simp add: of_nat_diff)
      ultimately show ?thesis using neg_div [of "int n" "int s"] False s by simp
    qed
    ultimately show ?thesis by simp
  qed
  finally show ?thesis .
qed

lemma chunks_concat:
  "0 < s \<Longrightarrow> concat (map (\<lambda>i. take s (drop i xs)) (range_from i (length xs) s)) = drop i xs"
proof (induction i "length xs" s rule: range_from.induct)
  case (1 i s)
  show ?case
  proof (cases "length xs \<le> i")
    case True
    then show ?thesis by (simp add: range_from.simps)
  next
    case False
    then have "concat (map (\<lambda>i. take s (drop i xs)) (range_from (i + s) (length xs) s)) = drop (i + s) xs"
      using 1 by simp
    moreover have "take s (drop i xs) @ drop (i + s) xs = drop i xs"
      by (metis append_take_drop_id drop_drop add.commute)
    ultimately show ?thesis using False "1.prems" by (simp add: range_from.simps [of i])
  qed
qed

lemma groups_lengths:
  "0 < s \<Longrightarrow> gs = map (\<lambda>i. take s (drop i xs)) (range_from i (length xs) s) \<Longrightarrow>
     (\<forall>g \<in> set (butlast gs). length g = s) \<and> (gs \<noteq> [] \<longrightarrow> 1 \<le> length (last gs) \<and> length (last gs) \<le> s)"
proof (induction i "length xs" s arbitrary: gs rule: range_from.induct)
  case (1 i s)
  show ?case
  proof (cases "length xs \<le> i")
    case True
    then show ?thesis using "1.prems" by (simp add: range_from.simps)
  next
    case False
    define rest where "rest = map (\<lambda>i. take s (drop i xs)) (range_from (i + s) (length xs) s)"
    have gs: "gs = take s (drop i xs) # rest"
      using False "1.prems" by (simp add: rest_def range_from.simps [of i])
    have ih: "(\<forall>g \<in> set (butlast rest). length g = s)
        \<and> (rest \<noteq> [] \<longrightarrow> 1 \<le> length (last rest) \<and> length (last rest) \<le> s)"
      using "1.hyps" [OF _ "1.prems"(1) rest_def] False "1.prems"(1) by simp
    show ?thesis
    proof (cases "rest = []")
      case True
      then show ?thesis using gs False "1.prems"(1) by simp
    next
      case ne: False
      then have "range_from (i + s) (length xs) s \<noteq> []" by (auto simp: rest_def)
      then have "i + s < length xs" by (auto simp: range_from.simps [of "i + s"] split: if_splits)
      then have "length (take s (drop i xs)) = s" by simp
      then show ?thesis using gs ih ne by simp
    qed
  qed
qed

text \<open>
  Claim C2. For every sequence \<open>xs\<close> of length \<open>n\<close> and every \<open>size \<ge> 1\<close>, the consumed
  \<open>chunk\<close> yields exactly \<open>\<lceil>n / size\<rceil>\<close> groups, their concatenation is \<open>xs\<close>, every
  group but the last has \<open>size\<close> elements and the last has between 1 and \<open>size\<close>; for
  every \<open>size < 1\<close> it fails with \<open>ValueError\<close>.
\<close>

theorem chunk_spec:
  "(1 \<le> sz \<longrightarrow>
      (\<exists>groups. chunk xs sz = Inr groups
         \<and> int (length groups) = \<lceil>real (length xs) / real_of_int sz\<rceil>
         \<and> concat groups = xs
         \<and> (\<forall>g \<in> set (butlast groups). int (length g) = sz)
         \<and> (groups \<noteq> [] \<longrightarrow> 1 \<le> length (last groups) \<and> int (length (last groups)) \<le> sz)))
   \<and> (sz < 1 \<longrightarrow> chunk xs sz = Inl ValueError)"
proof (intro conjI impI)
  assume "sz < 1"
  then show "chunk xs sz = Inl ValueError" by (simp add: chunk_def)
next
  assume sz: "1 \<le> sz"
  define s where "s = nat sz"
  have s: "0 < s" "int s = sz" using sz by (simp_all add: s_def)
  define groups where "groups = map (\<lambda>i. take s (drop i xs)) (range_from 0 (length xs) s)"
  have c: "chunk xs sz = Inr groups"
    using sz by (simp add: chunk_def groups_def s_def py_slice_window)
  have l: "int (length groups) = \<lceil>real (length xs) / real_of_int sz\<rceil>"
  proof -
    have "length groups = (length xs + s - 1) div s"
      using range_from_length [OF s(1), of 0 "length xs"] by (simp add: groups_def)
    moreover have "real_of_int sz = real s" using s(2) by simp
    ultimately show ?thesis using ceil_div [OF s(1), of "length xs"] by simp
  qed
  have k: "concat groups = xs"
    using chunks_concat [OF s(1), of xs 0] by (simp add: groups_def)
  have g: "(\<forall>g \<in> set (butlast groups). length g = s)
      \<and> (groups \<noteq> [] \<longrightarrow> 1 \<le> length (last groups) \<and> length (last groups) \<le> s)"
    using groups_lengths [OF s(1) groups_def] .
  have g1: "\<forall>g \<in> set (butlast groups). int (length g) = sz" using g s(2) by auto
  have g2: "groups \<noteq> [] \<longrightarrow> 1 \<le> length (last groups) \<and> int (length (last groups)) \<le> sz"
    using g s(2) by auto
  show "\<exists>groups. chunk xs sz = Inr groups
         \<and> int (length groups) = \<lceil>real (length xs) / real_of_int sz\<rceil>
         \<and> concat groups = xs
         \<and> (\<forall>g \<in> set (butlast groups). int (length g) = sz)
         \<and> (groups \<noteq> [] \<longrightarrow> 1 \<le> length (last groups) \<and> int (length (last groups)) \<le> sz)"
    using c l k g1 g2 by blast
qed

lemma chunk_example: "chunk [1, 2, 3, 4, 5 :: int] 2 = Inr [[1, 2], [3, 4], [5]]"
  by (simp add: chunk_def py_slice_window range_from.simps)

theorem chunk_spec_witness:
  "chunk [1, 2, 3, 4, 5 :: int] 2 = Inr [[1, 2], [3, 4], [5]]
   \<and> int (length [[1, 2], [3, 4], [5 :: int]]) = \<lceil>real (length [1, 2, 3, 4, 5 :: int]) / real_of_int 2\<rceil>
   \<and> chunk [1, 2, 3, 4, 5 :: int] 0 = Inl ValueError"
  using chunk_spec [of 2 "[1, 2, 3, 4, 5 :: int]"] chunk_spec [of 0 "[1, 2, 3, 4, 5 :: int]"]
  by (simp add: chunk_example)

subsection \<open>unique and OrderedSet\<close>

lemma first_occ_Cons:
  "map (\<lambda>i. (x # xs) ! i) (filter (\<lambda>i. (x # xs) ! i \<notin> S \<union> set (take i (x # xs))) [0..<length (x # xs)])
   = (if x \<in> S then [] else [x])
     @ map (\<lambda>i. xs ! i) (filter (\<lambda>i. xs ! i \<notin> insert x S \<union> set (take i xs)) [0..<length xs])"
proof -
  have "[0..<length (x # xs)] = 0 # map Suc [0..<length xs]"
    by (simp add: upt_conv_Cons map_Suc_upt del: upt_Suc)
  then show ?thesis
    by (simp add: filter_map comp_def conj_ac del: upt_Suc)
qed

lemma unique_loop_first_occ:
  "unique_loop None xs S r
   = r @ map (\<lambda>i. xs ! i) (filter (\<lambda>i. xs ! i \<notin> S \<union> set (take i xs)) [0..<length xs])"
proof (induction xs arbitrary: S r)
  case Nil
  then show ?case by simp
next
  case (Cons x xs)
  show ?case
    unfolding first_occ_Cons by (cases "x \<in> S") (simp_all add: Cons.IH insert_absorb)
qed

lemma unique_loop_distinct:
  "S = set r \<Longrightarrow> distinct r \<Longrightarrow>
     distinct (unique_loop None xs S r) \<and> set (unique_loop None xs S r) = set r \<union> set xs"
proof (induction xs arbitrary: S r)
  case Nil
  then show ?case by simp
next
  case (Cons x xs)
  show ?case
  proof (cases "x \<in> S")
    case True
    then show ?thesis using Cons.IH [of S r] Cons.prems by auto
  next
    case False
    then show ?thesis using Cons.IH [of "insert x S" "r @ [x]"] Cons.prems by auto
  qed
qed

lemma keys_setitem:
  "dict_keys (dict_setitem d k v) = (if k \<in> set (dict_keys d) then dict_keys d else dict_keys d @ [k])"
  by (induction d) (force simp: dict_keys_def)+

lemma init_loop_first_occ:
  "list_of (init_loop s xs)
   = list_of s @ map (\<lambda>i. xs ! i) (filter (\<lambda>i. xs ! i \<notin> set (list_of s) \<union> set (take i xs)) [0..<length xs])"
proof (induction xs arbitrary: s)
  case Nil
  then show ?case by simp
next
  case (Cons x xs)
  have k: "list_of (add s x) = (if x \<in> set (list_of s) then list_of s else list_of s @ [x])"
    by (simp add: list_of_def add_def keys_setitem)
  show ?case
    unfolding first_occ_Cons by (cases "x \<in> set (list_of s)") (simp_all add: Cons.IH k insert_absorb)
qed

text \<open>
  Claim C5. For every list, \<open>unique\<close> without a key function and \<^verbatim>\<open>list(OrderedSet(xs))\<close>
  both return the elements of the list deduplicated in first-occurrence order (an
  element is kept exactly where it does not occur earlier), so the two results are
  equal; the result has no duplicates and the elements of the input. On
  \<open>[3,1,4,1,5,9,2,6,5]\<close> both yield \<open>[3,1,4,5,9,2,6]\<close>.
\<close>

theorem unique_ordered_set:
  "unique xs None = first_occurrences xs
   \<and> list_of (OrderedSet_init (Some xs)) = first_occurrences xs
   \<and> unique xs None = list_of (OrderedSet_init (Some xs))
   \<and> distinct (unique xs None) \<and> set (unique xs None) = set xs
   \<and> unique [3, 1, 4, 1, 5, 9, 2, 6, 5 :: int] None = [3, 1, 4, 5, 9, 2, 6]
   \<and> list_of (OrderedSet_init (Some [3, 1, 4, 1, 5, 9, 2, 6, 5 :: int])) = [3, 1, 4, 5, 9, 2, 6]"
proof -
  have u: "unique xs None = first_occurrences xs"
    by (simp add: unique_def first_occurrences_def unique_loop_first_occ)
  have o: "list_of (OrderedSet_init (Some xs)) = first_occurrences xs"
    using init_loop_first_occ [of "OrderedSet []" xs]
    by (simp add: OrderedSet_init_def first_occurrences_def list_of_def [of "OrderedSet []"] dict_keys_def)
  have d: "distinct (unique xs None) \<and> set (unique xs None) = set xs"
    using unique_loop_distinct [of "{}" "[]" xs] by (simp add: unique_def)
  have e1: "unique [3, 1, 4, 1, 5, 9, 2, 6, 5 :: int] None = [3, 1, 4, 5, 9, 2, 6]"
    by (simp add: unique_def)
  have e2: "list_of (OrderedSet_init (Some [3, 1, 4, 1, 5, 9, 2, 6, 5 :: int])) = [3, 1, 4, 5, 9, 2, 6]"
    by (simp add: OrderedSet_init_def add_def list_of_def dict_keys_def)
  show ?thesis using u o d e1 e2 by simp
qed

subsection \<open>flatten\<close>

lemma flatten_zero: "flatten xs 0 = xs"
  by (induction xs "0::int" rule: flatten.induct) simp_all

lemma flatten_flat: "\<forall>x \<in> set xs. \<not> expandable x \<Longrightarrow> flatten xs d = xs"
  by (induction xs d rule: flatten.induct) simp_all

lemma flatten_unlimited_flat: "d < 0 \<Longrightarrow> \<forall>x \<in> set (flatten xs d). \<not> expandable x"
  by (induction xs d rule: flatten.induct) (auto simp: Let_def)

text \<open>
  Claim C6. For every input, \<open>flatten\<close> with \<open>depth = 0\<close> returns the items unchanged;
  \<open>flatten\<close> with \<open>depth = -1\<close> returns unchanged a sequence that holds no expandable
  item (strings, byte strings and dictionaries are not expandable); and, as the result
  of an unlimited flatten holds no expandable item, flattening it again changes nothing.
\<close>

theorem flatten_spec:
  "flatten xs 0 = xs
   \<and> ((\<forall>x \<in> set xs. \<not> expandable x) \<longrightarrow> flatten xs (- 1) = xs)
   \<and> (\<forall>x \<in> set (flatten xs (- 1)). \<not> expandable x)
   \<and> flatten (flatten xs (- 1)) (- 1) = flatten xs (- 1)"
  using flatten_zero [of xs] flatten_flat [of xs "- 1"] flatten_unlimited_flat [of "- 1" xs]
    flatten_flat [of "flatten xs (- 1)" "- 1"]
  by simp

theorem flatten_spec_witness:
  "\<not> expandable (Scalar 1) \<and> \<not> expandable (Str ''ab'') \<and> \<not> expandable (Bytes [97])
   \<and> \<not> expandable (Dict [(Str ''k'', Iter [Scalar 2])])
   \<and> flatten [Scalar 1, Str ''ab'', Bytes [97], Dict [(Str ''k'', Iter [Scalar 2])]] (- 1)
       = [Scalar 1, Str ''ab'', Bytes [97], Dict [(Str ''k'', Iter [Scalar 2])]]
   \<and> flatten [Iter [Scalar 1, Iter [Scalar 2]], Scalar 3] 0 = [Iter [Scalar 1, Iter [Scalar 2]], Scalar 3]
   \<and> flatten [Iter [Iter [Scalar 1]], Iter [Iter [Scalar 2]]] (- 1) = [Scalar 1, Scalar 2]"
  using flatten_spec [of "[Scalar 1, Str ''ab'', Bytes [97], Dict [(Str ''k'', Iter [Scalar 2])]]"]
     flatten_spec [of "[Iter [Scalar 1, Iter [Scalar 2]], Scalar 3]"]
  by simp

subsection \<open>deep_merge\<close>

text \<open>
  The abstraction of a stored value only grows with the store and with the depth.
\<close>

lemma abs_mono:
  assumes "s \<subseteq>\<^sub>m s'"
  shows "abs_val n s v = Some t \<Longrightarrow> abs_val n s' v = Some t"
    and "abs_items n s d = Some td \<Longrightarrow> abs_items n s' d = Some td"
  using assms
proof (induction n s v and n s d arbitrary: t and td rule: abs_val_abs_items.induct)
  case (6 n s a)
  from "6.prems" obtain d u where d: "s a = Some d" and u: "abs_items n s d = Some u" and t: "t = Dict u"
    by (auto split: option.splits)
  have "s' a = Some d" using d "6.prems"(2) by (auto simp: map_le_def dom_def)
  moreover have "abs_items n s' d = Some u" using "6.IH" [OF d u "6.prems"(2)] .
  ultimately show ?case using t by simp
next
  case (8 n s k v d)
  from "8.prems" obtain v' d' where v: "abs_val n s v = Some v'" and d: "abs_items n s d = Some d'"
      and td: "td = (k, v') # d'"
    by (auto split: option.splits)
  have "abs_val n s' v = Some v'" using "8.IH"(1) [OF v "8.prems"(2)] .
  moreover have "abs_items n s' d = Some d'" using "8.IH"(2) [OF v d "8.prems"(2)] .
  ultimately show ?case using td by simp
qed simp_all

lemma abs_fuel_mono:
  shows "abs_val n s v = Some t \<Longrightarrow> abs_val (n + k) s v = Some t"
    and "abs_items n s d = Some td \<Longrightarrow> abs_items (n + k) s d = Some td"
proof (induction n s v and n s d arbitrary: t and td rule: abs_val_abs_items.induct)
  case (6 n s a)
  then show ?case by (auto split: option.splits)
next
  case (8 n s k v d)
  then show ?case by (auto split: option.splits)
qed simp_all

lemma abs_items_get:
  "abs_items n s d = Some t \<Longrightarrow>
     dict_get t k = (case dict_get d k of None \<Rightarrow> None | Some v \<Rightarrow> abs_val n s v)"
  by (induction d arbitrary: t) (auto split: option.splits)

lemma abs_items_get_Some:
  "abs_items n s d = Some t \<Longrightarrow> dict_get d k = Some v \<Longrightarrow>
     \<exists>v'. abs_val n s v = Some v' \<and> dict_get t k = Some v'"
  by (induction d arbitrary: t) (auto split: option.splits if_splits)

lemma abs_items_setitem:
  "abs_items n s d = Some t \<Longrightarrow> abs_val n s v = Some v' \<Longrightarrow>
     abs_items n s (dict_setitem d k v) = Some (dict_setitem t k v')"
  by (induction d arbitrary: t) (auto split: option.splits)

lemma abs_val_Dict: "abs_val n s v = Some (Dict t) \<Longrightarrow> \<exists>a. v = HRef a"
  by (cases v) auto

lemma abs_val_HRef:
  "abs_val n s (HRef a) = Some t \<Longrightarrow>
     \<exists>m d u. n = Suc m \<and> s a = Some d \<and> abs_items m s d = Some u \<and> t = Dict u"
  by (cases n) (auto split: option.splits)

text \<open>
  The loop. Its invariant: the object \<open>result\<close> stands for the value the loop on values
  has reached, and does so in the frame, the part of the store that no write of the
  loop touches. The hypothesis \<open>nested\<close> is the statement about the recursive calls.
\<close>

lemma frame_ge: "s0 \<subseteq>\<^sub>m s \<Longrightarrow> \<forall>x\<ge>R. s0 x = None \<Longrightarrow> s0 \<subseteq>\<^sub>m frame s0 R s"
  by (auto simp: map_le_def frame_def)

lemma frame_le: "s0 \<subseteq>\<^sub>m s \<Longrightarrow> frame s0 R s \<subseteq>\<^sub>m s"
  by (auto simp: map_le_def frame_def dom_def split: if_splits)

lemma frame_mono: "s(R := None) \<subseteq>\<^sub>m s'(R := None) \<Longrightarrow> frame s0 R s \<subseteq>\<^sub>m frame s0 R s'"
  by (auto simp: map_le_def frame_def dom_def split: if_splits)

lemma frame_upd: "frame s0 R (s(R \<mapsto> d)) = frame s0 R s"
  by (auto simp: frame_def)

lemma frame_nested:
  "s0 \<subseteq>\<^sub>m s \<Longrightarrow> R < nx \<Longrightarrow> s \<subseteq>\<^sub>m s1 \<Longrightarrow> frame (frame s0 R s) nx s1 \<subseteq>\<^sub>m frame s0 R s1"
  by (auto simp: map_le_def frame_def dom_def split: if_splits)

lemma merge_loop_correct:
  assumes nested: "\<And>m' s nx s0 a b d1 d2 ta tb.
      m = Suc m' \<Longrightarrow> s0 \<subseteq>\<^sub>m s \<Longrightarrow> wf_state (s, nx) \<Longrightarrow> s0 a = Some d1 \<Longrightarrow> s0 b = Some d2 \<Longrightarrow>
      abs_items m' s0 d1 = Some ta \<Longrightarrow> abs_items m' s0 d2 = Some tb \<Longrightarrow>
      \<exists>s' nx' cur. deep_merge_h m (s, nx) a b = Some ((s', nx'), nx) \<and> s \<subseteq>\<^sub>m s' \<and> nx < nx'
         \<and> wf_state (s', nx') \<and> s' nx = Some cur
         \<and> abs_items m' (frame s0 nx s') cur = Some (merge_into ta tb)"
  shows "s0 \<subseteq>\<^sub>m s \<Longrightarrow> \<forall>x\<ge>R. s0 x = None \<Longrightarrow> R < nx \<Longrightarrow> wf_state (s, nx) \<Longrightarrow> s0 b = Some d2 \<Longrightarrow>
     s R = Some cur \<Longrightarrow> abs_items m (frame s0 R s) cur = Some tcur \<Longrightarrow>
     abs_items m s0 rest = Some trest \<Longrightarrow>
     \<exists>s' nx' cur'. merge_loop m (s, nx) R b d2 rest = Some (s', nx')
        \<and> s(R := None) \<subseteq>\<^sub>m s'(R := None) \<and> nx \<le> nx' \<and> wf_state (s', nx') \<and> s' R = Some cur'
        \<and> abs_items m (frame s0 R s') cur' = Some (merge_into tcur trest)"
proof (induction rest arbitrary: s nx cur tcur trest)
  case Nil
  then show ?case by auto
next
  case (Cons e rest)
  obtain key val where e: "e = (key, val)" by (cases e)
  from Cons.prems(8) obtain tv trest' where tv: "abs_val m s0 val = Some tv"
      and tr: "abs_items m s0 rest = Some trest'" and trest: "trest = (key, tv) # trest'"
    by (auto simp: e split: option.splits)
  let ?c = "frame s0 R s"
  have s0c: "s0 \<subseteq>\<^sub>m ?c" using Cons.prems(1,2) by (rule frame_ge)
  have cs: "?c \<subseteq>\<^sub>m s" using Cons.prems(1) by (rule frame_le)
  have sb: "s b = Some d2" using Cons.prems(1,5) by (auto simp: map_le_def dom_def)
  have get: "dict_get tcur key = (case dict_get cur key of None \<Rightarrow> None | Some v \<Rightarrow> abs_val m ?c v)"
    using Cons.prems(7) by (rule abs_items_get)
  show ?case
  proof (cases "\<exists>x y. val = HRef y \<and> dict_get cur key = Some (HRef x)")
    case True
    then obtain x y where val: "val = HRef y" and curx: "dict_get cur key = Some (HRef x)" by auto
    from tv val obtain m' dy ty where m: "m = Suc m'" and dy: "s0 y = Some dy"
        and ty: "abs_items m' s0 dy = Some ty" and tvd: "tv = Dict ty"
      using abs_val_HRef by blast
    have "\<exists>t. abs_val m ?c (HRef x) = Some t \<and> dict_get tcur key = Some t"
      using Cons.prems(7) curx by (rule abs_items_get_Some)
    then obtain tx' where ax: "abs_val m ?c (HRef x) = Some tx'" and gx: "dict_get tcur key = Some tx'"
      by auto
    from ax m obtain dx tx where dx: "?c x = Some dx" and tx: "abs_items m' ?c dx = Some tx"
        and txd: "tx' = Dict tx"
      by (auto split: option.splits)
    have cy: "?c y = Some dy" using dy s0c by (auto simp: map_le_def dom_def)
    have ty': "abs_items m' ?c dy = Some ty" using abs_mono(2) [OF s0c ty] .
    from nested [OF m cs Cons.prems(4) dx cy tx ty']
    obtain s1 nx1 curr where call: "deep_merge_h m (s, nx) x y = Some ((s1, nx1), nx)"
        and ss1: "s \<subseteq>\<^sub>m s1" and nx1: "nx < nx1" and wf1: "wf_state (s1, nx1)"
        and s1nx: "s1 nx = Some curr"
        and absr: "abs_items m' (frame ?c nx s1) curr = Some (merge_into tx ty)"
      by blast
    have s1R: "s1 R = Some cur" using ss1 Cons.prems(6) by (auto simp: map_le_def dom_def)
    let ?s2 = "s1(R \<mapsto> dict_setitem cur key (HRef nx))"
    have s0R: "s0 R = None" using Cons.prems(2) by simp
    have p1: "s0 \<subseteq>\<^sub>m ?s2"
      using Cons.prems(1) ss1 s0R by (auto simp: map_le_def dom_def)
    have p4: "wf_state (?s2, nx1)"
      using wf1 Cons.prems(3) nx1 by (auto simp: wf_state_def)
    have f2: "frame s0 R ?s2 = frame s0 R s1" by (rule frame_upd)
    have cc: "?c \<subseteq>\<^sub>m frame s0 R s1"
      using ss1 by (intro frame_mono) (auto simp: map_le_def dom_def)
    have nest: "frame ?c nx s1 \<subseteq>\<^sub>m frame s0 R s1"
      using Cons.prems(1,3) ss1 by (rule frame_nested)
    have "frame s0 R s1 nx = Some curr"
      using s1nx Cons.prems(3) by (simp add: frame_def)
    moreover have "abs_items m' (frame s0 R s1) curr = Some (merge_into tx ty)"
      using abs_mono(2) [OF nest absr] .
    ultimately have newv: "abs_val m (frame s0 R s1) (HRef nx) = Some (Dict (merge_into tx ty))"
      using m by simp
    have "abs_items m (frame s0 R s1) cur = Some tcur"
      using abs_mono(2) [OF cc Cons.prems(7)] .
    then have p7: "abs_items m (frame s0 R ?s2) (dict_setitem cur key (HRef nx))
        = Some (dict_setitem tcur key (Dict (merge_into tx ty)))"
      unfolding f2 using newv by (rule abs_items_setitem)
    have p3: "R < nx1" using Cons.prems(3) nx1 by simp
    have p6: "?s2 R = Some (dict_setitem cur key (HRef nx))" by simp
    from Cons.IH [OF p1 Cons.prems(2) p3 p4 Cons.prems(5) p6 p7 tr]
    obtain s' nx' cur' where loop: "merge_loop m (?s2, nx1) R b d2 rest = Some (s', nx')"
        and le: "?s2(R := None) \<subseteq>\<^sub>m s'(R := None)" and nxle: "nx1 \<le> nx'" and wf': "wf_state (s', nx')"
        and s'R: "s' R = Some cur'"
        and res: "abs_items m (frame s0 R s') cur'
            = Some (merge_into (dict_setitem tcur key (Dict (merge_into tx ty))) trest')"
      by blast
    have "merge_loop m (s, nx) R b d2 (e # rest) = Some (s', nx')"
      using sb Cons.prems(6) val curx call s1R loop by (simp add: e)
    moreover have "s(R := None) \<subseteq>\<^sub>m s'(R := None)"
      using ss1 le by (auto simp: map_le_def dom_def split: if_splits)
    moreover have "nx \<le> nx'" using nx1 nxle by simp
    moreover have "merge_into tcur trest = merge_into (dict_setitem tcur key (Dict (merge_into tx ty))) trest'"
      using gx txd tvd by (simp add: trest)
    ultimately show ?thesis using wf' s'R res by metis
  next
    case False
    let ?s2 = "s(R \<mapsto> dict_setitem cur key val)"
    have s0R: "s0 R = None" using Cons.prems(2) by simp
    have p1: "s0 \<subseteq>\<^sub>m ?s2"
      using Cons.prems(1) s0R by (auto simp: map_le_def dom_def)
    have p4: "wf_state (?s2, nx)"
      using Cons.prems(3,4) by (auto simp: wf_state_def)
    have f2: "frame s0 R ?s2 = ?c" by (rule frame_upd)
    have "abs_val m ?c val = Some tv" using abs_mono(1) [OF s0c tv] .
    with Cons.prems(7) have p7: "abs_items m (frame s0 R ?s2) (dict_setitem cur key val)
        = Some (dict_setitem tcur key tv)"
      unfolding f2 by (rule abs_items_setitem)
    have p6: "?s2 R = Some (dict_setitem cur key val)" by simp
    from Cons.IH [OF p1 Cons.prems(2,3) p4 Cons.prems(5) p6 p7 tr]
    obtain s' nx' cur' where loop: "merge_loop m (?s2, nx) R b d2 rest = Some (s', nx')"
        and le: "?s2(R := None) \<subseteq>\<^sub>m s'(R := None)" and nxle: "nx \<le> nx'" and wf': "wf_state (s', nx')"
        and s'R: "s' R = Some cur'"
        and res: "abs_items m (frame s0 R s') cur' = Some (merge_into (dict_setitem tcur key tv) trest')"
      by blast
    have "merge_loop m (s, nx) R b d2 (e # rest) = Some (s', nx')"
      using sb Cons.prems(6) False loop
      by (auto simp: e split: hval.splits option.splits)
    moreover have "s(R := None) \<subseteq>\<^sub>m s'(R := None)"
      using le by (auto simp: map_le_def dom_def split: if_splits)
    moreover have "merge_into tcur trest = merge_into (dict_setitem tcur key tv) trest'"
    proof (cases "\<exists>ty. tv = Dict ty")
      case True
      then obtain ty where tvd: "tv = Dict ty" by auto
      then obtain y where val: "val = HRef y" using tv abs_val_Dict by blast
      have "\<not> (\<exists>tx. dict_get tcur key = Some (Dict tx))"
      proof
        assume "\<exists>tx. dict_get tcur key = Some (Dict tx)"
        then obtain tx where g: "dict_get tcur key = Some (Dict tx)" by auto
        with get obtain v where v: "dict_get cur key = Some v" and av: "abs_val m ?c v = Some (Dict tx)"
          by (auto split: option.splits)
        then obtain x where "v = HRef x" using abs_val_Dict by blast
        with v val False show False by simp
      qed
      then show ?thesis
        by (auto simp: trest tvd split: option.splits item.splits)
    next
      case False
      then show ?thesis by (cases tv) (simp_all add: trest)
    qed
    ultimately show ?thesis using wf' s'R res nxle by metis
  qed
qed


lemma deep_merge_h_step:
  assumes nested: "\<And>m' s nx s0 a b d1 d2 ta tb.
      m = Suc m' \<Longrightarrow> s0 \<subseteq>\<^sub>m s \<Longrightarrow> wf_state (s, nx) \<Longrightarrow> s0 a = Some d1 \<Longrightarrow> s0 b = Some d2 \<Longrightarrow>
      abs_items m' s0 d1 = Some ta \<Longrightarrow> abs_items m' s0 d2 = Some tb \<Longrightarrow>
      \<exists>s' nx' cur. deep_merge_h m (s, nx) a b = Some ((s', nx'), nx) \<and> s \<subseteq>\<^sub>m s' \<and> nx < nx'
         \<and> wf_state (s', nx') \<and> s' nx = Some cur
         \<and> abs_items m' (frame s0 nx s') cur = Some (merge_into ta tb)"
    and sub: "s0 \<subseteq>\<^sub>m s" and wf: "wf_state (s, nx)"
    and a: "s0 a = Some d1" and b: "s0 b = Some d2"
    and ta: "abs_items m s0 d1 = Some ta" and tb: "abs_items m s0 d2 = Some tb"
  shows "\<exists>s' nx' cur. deep_merge_h (Suc m) (s, nx) a b = Some ((s', nx'), nx) \<and> s \<subseteq>\<^sub>m s' \<and> nx < nx'
         \<and> wf_state (s', nx') \<and> s' nx = Some cur
         \<and> abs_items m (frame s0 nx s') cur = Some (merge_into ta tb)"
proof -
  let ?s1 = "s(nx \<mapsto> d1)"
  have sa: "s a = Some d1" and sb: "s b = Some d2"
    using sub a b by (auto simp: map_le_def dom_def)
  have snone: "\<forall>x\<ge>nx. s x = None" using wf by (simp add: wf_state_def)
  have s0none: "\<forall>x\<ge>nx. s0 x = None"
  proof (intro allI impI)
    fix x assume "nx \<le> x"
    then have "s x = None" using snone by simp
    then show "s0 x = None" using sub by (cases "s0 x") (auto simp: map_le_def dom_def)
  qed
  have p1: "s0 \<subseteq>\<^sub>m ?s1" using sub s0none by (auto simp: map_le_def dom_def)
  have p3: "nx < Suc nx" by simp
  have p4: "wf_state (?s1, Suc nx)" using snone by (simp add: wf_state_def)
  have p6: "?s1 nx = Some d1" by simp
  have "s0 \<subseteq>\<^sub>m frame s0 nx ?s1" using p1 s0none by (rule frame_ge)
  then have p7: "abs_items m (frame s0 nx ?s1) d1 = Some ta" using ta by (rule abs_mono(2))
  have "\<exists>s' nx' cur'. merge_loop m (?s1, Suc nx) nx b d2 d2 = Some (s', nx')
        \<and> ?s1(nx := None) \<subseteq>\<^sub>m s'(nx := None) \<and> Suc nx \<le> nx' \<and> wf_state (s', nx') \<and> s' nx = Some cur'
        \<and> abs_items m (frame s0 nx s') cur' = Some (merge_into ta tb)"
    by (rule merge_loop_correct [OF _ p1 s0none p3 p4 b p6 p7 tb]) (rule nested; assumption)
  then obtain s' nx' cur where loop: "merge_loop m (?s1, Suc nx) nx b d2 d2 = Some (s', nx')"
      and le: "?s1(nx := None) \<subseteq>\<^sub>m s'(nx := None)" and nxle: "Suc nx \<le> nx'"
      and wf': "wf_state (s', nx')" and s'nx: "s' nx = Some cur"
      and res: "abs_items m (frame s0 nx s') cur = Some (merge_into ta tb)"
    by blast
  have "deep_merge_h (Suc m) (s, nx) a b = Some ((s', nx'), nx)"
    using sa sb loop by simp
  moreover have "s \<subseteq>\<^sub>m s'"
    unfolding map_le_def
  proof
    fix x assume "x \<in> dom s"
    then obtain y where y: "s x = Some y" by auto
    then have ne: "x \<noteq> nx" using snone by auto
    then have "(?s1(nx := None)) x = Some y" using y by simp
    then have "(s'(nx := None)) x = Some y" using le by (auto simp: map_le_def dom_def)
    then show "s x = s' x" using ne y by simp
  qed
  moreover have "nx < nx'" using nxle by simp
  ultimately show ?thesis using wf' s'nx res by metis
qed

lemma deep_merge_h_correct:
  "s0 \<subseteq>\<^sub>m s \<Longrightarrow> wf_state (s, nx) \<Longrightarrow> s0 a = Some d1 \<Longrightarrow> s0 b = Some d2 \<Longrightarrow>
     abs_items m s0 d1 = Some ta \<Longrightarrow> abs_items m s0 d2 = Some tb \<Longrightarrow>
     \<exists>s' nx' cur. deep_merge_h (Suc m) (s, nx) a b = Some ((s', nx'), nx) \<and> s \<subseteq>\<^sub>m s' \<and> nx < nx'
         \<and> wf_state (s', nx') \<and> s' nx = Some cur
         \<and> abs_items m (frame s0 nx s') cur = Some (merge_into ta tb)"
proof (induction m arbitrary: s nx s0 a b d1 d2 ta tb)
  case 0
  show ?case
    by (rule deep_merge_h_step [OF _ "0.prems"]) simp
next
  case (Suc m)
  show ?case
  proof (rule deep_merge_h_step [OF _ Suc.prems])
    fix m' s nx s0 a b d1 d2 ta tb
    assume "Suc m = Suc m'" and "s0 \<subseteq>\<^sub>m s" and "wf_state (s, nx)" and "s0 a = Some d1"
      and "s0 b = Some d2" and "abs_items m' s0 d1 = Some ta" and "abs_items m' s0 d2 = Some tb"
    then show "\<exists>s' nx' cur. deep_merge_h (Suc m) (s, nx) a b = Some ((s', nx'), nx) \<and> s \<subseteq>\<^sub>m s'
        \<and> nx < nx' \<and> wf_state (s', nx') \<and> s' nx = Some cur
        \<and> abs_items m' (frame s0 nx s') cur = Some (merge_into ta tb)"
      using Suc.IH [of s0 s nx a d1 b d2 ta tb] by simp
  qed
qed

lemma deep_merge_h_refines:
  assumes wf: "wf_state (s, nx)"
    and a: "abs_val n s (HRef a) = Some (Dict ta)"
    and b: "abs_val n s (HRef b) = Some (Dict tb)"
    and n: "n \<le> n'"
  shows "\<exists>s' nx'. deep_merge_h n' (s, nx) a b = Some ((s', nx'), nx)
           \<and> s nx = None \<and> s \<subseteq>\<^sub>m s'
           \<and> abs_val n' s' (HRef nx) = Some (Dict (deep_merge ta tb))"
proof -
  obtain k where k: "n' = n + k" using n by (auto simp: le_iff_add)
  have a': "abs_val n' s (HRef a) = Some (Dict ta)" unfolding k using a by (rule abs_fuel_mono(1))
  have b': "abs_val n' s (HRef b) = Some (Dict tb)" unfolding k using b by (rule abs_fuel_mono(1))
  from a' obtain m d1 where m: "n' = Suc m" and d1: "s a = Some d1" and ta: "abs_items m s d1 = Some ta"
    using abs_val_HRef by blast
  from b' m obtain d2 where d2: "s b = Some d2" and tb: "abs_items m s d2 = Some tb"
    by (auto split: option.splits)
  have refl: "s \<subseteq>\<^sub>m s" by simp
  from deep_merge_h_correct [OF refl wf d1 d2 ta tb]
  obtain s' nx' cur where call: "deep_merge_h (Suc m) (s, nx) a b = Some ((s', nx'), nx)"
      and le: "s \<subseteq>\<^sub>m s'" and s'nx: "s' nx = Some cur"
      and res: "abs_items m (frame s nx s') cur = Some (merge_into ta tb)"
    by blast
  have "frame s nx s' \<subseteq>\<^sub>m s'" using le by (rule frame_le)
  then have "abs_items m s' cur = Some (merge_into ta tb)" using res by (rule abs_mono(2))
  then have "abs_val n' s' (HRef nx) = Some (Dict (deep_merge ta tb))"
    using s'nx m by (simp add: deep_merge_def)
  moreover have "s nx = None" using wf by (simp add: wf_state_def)
  ultimately show ?thesis using call le m by metis
qed


lemma dict_get_setitem:
  "dict_get (dict_setitem d k v) k' = (if k' = k then Some v else dict_get d k')"
  by (induction d) auto

lemma merge_into_lookup:
  "distinct (dict_keys b) \<Longrightarrow>
     dict_get (merge_into a b) k =
       (case dict_get b k of
          None \<Rightarrow> dict_get a k
        | Some vb \<Rightarrow>
            (case vb of
               Dict y \<Rightarrow> (case dict_get a k of
                            Some (Dict x) \<Rightarrow> Some (Dict (merge_into x y))
                          | _ \<Rightarrow> Some vb)
             | _ \<Rightarrow> Some vb))"
proof (induction b arbitrary: a)
  case Nil
  then show ?case by simp
next
  case (Cons e b)
  obtain key val where e: "e = (key, val)" by (cases e)
  have d: "distinct (dict_keys b)" and nk: "key \<notin> set (dict_keys b)"
    using Cons.prems by (simp_all add: e dict_keys_def)
  have none: "dict_get b key = None"
    using nk by (induction b) (auto simp: dict_keys_def)
  show ?case
  proof (cases "k = key")
    case True
    show ?thesis
      using Cons.IH [OF d] none True
      by (auto simp: e dict_get_setitem split: item.splits option.splits)
  next
    case False
    show ?thesis
      using Cons.IH [OF d] False
      by (auto simp: e dict_get_setitem split: item.splits option.splits)
  qed
qed

lemma deep_merge_eq: "deep_merge x y = merge_into x y"
  by (simp add: deep_merge_def)

text \<open>
  Claim C4. On values: for dictionaries \<open>a\<close> and \<open>b\<close> (the keys of \<open>b\<close> distinct, as the
  keys of a dictionary are) and every key \<open>k\<close>, the merged dictionary holds under \<open>k\<close>
  the recursive merge of the two values if \<open>k\<close> is in both and both values are
  dictionaries; else the value of \<open>b\<close> if \<open>k\<close> is in \<open>b\<close> (so a sequence is replaced
  whole), else what \<open>a\<close> holds. \<open>deep_merge({'a':{'b':1}}, {'a':{'c':2}})\<close> is
  \<open>{'a':{'b':1,'c':2}}\<close>.

  On objects: in a well-formed store where the objects at \<open>p\<close> and \<open>q\<close> stand for the
  dictionaries \<open>ta\<close> and \<open>tb\<close> within depth \<open>n\<close>, the call with any depth bound
  \<open>n' \<ge> n\<close> returns. The result is a new object, at an address that was free; it stands
  for \<open>deep_merge ta tb\<close>. Every object of the store before the call is in the store
  after it, unchanged (\<open>s \<subseteq>\<^sub>m s'\<close>): neither argument nor anything they share is
  mutated, and both still stand for \<open>ta\<close> and \<open>tb\<close>.
\<close>

theorem deep_merge_spec:
  "(distinct (dict_keys b) \<longrightarrow>
      dict_get (deep_merge a b) k =
        (case dict_get b k of
           None \<Rightarrow> dict_get a k
         | Some vb \<Rightarrow>
             (case vb of
                Dict y \<Rightarrow> (case dict_get a k of
                             Some (Dict x) \<Rightarrow> Some (Dict (deep_merge x y))
                           | _ \<Rightarrow> Some vb)
              | _ \<Rightarrow> Some vb)))
   \<and> deep_merge [(Str ''a'', Dict [(Str ''b'', Scalar 1)])] [(Str ''a'', Dict [(Str ''c'', Scalar 2)])]
       = [(Str ''a'', Dict [(Str ''b'', Scalar 1), (Str ''c'', Scalar 2)])]
   \<and> (wf_state (s, nx) \<and> abs_val n s (HRef p) = Some (Dict ta) \<and> abs_val n s (HRef q) = Some (Dict tb)
        \<and> n \<le> n' \<longrightarrow>
      (\<exists>s' nx'. deep_merge_h n' (s, nx) p q = Some ((s', nx'), nx)
          \<and> s nx = None \<and> s \<subseteq>\<^sub>m s'
          \<and> abs_val n' s' (HRef nx) = Some (Dict (deep_merge ta tb))
          \<and> abs_val n s' (HRef p) = Some (Dict ta) \<and> abs_val n s' (HRef q) = Some (Dict tb)))"
proof (intro conjI impI)
  assume "distinct (dict_keys b)"
  then show "dict_get (deep_merge a b) k =
        (case dict_get b k of
           None \<Rightarrow> dict_get a k
         | Some vb \<Rightarrow>
             (case vb of
                Dict y \<Rightarrow> (case dict_get a k of
                             Some (Dict x) \<Rightarrow> Some (Dict (deep_merge x y))
                           | _ \<Rightarrow> Some vb)
              | _ \<Rightarrow> Some vb))"
    unfolding deep_merge_eq by (rule merge_into_lookup)
next
  show "deep_merge [(Str ''a'', Dict [(Str ''b'', Scalar 1)])] [(Str ''a'', Dict [(Str ''c'', Scalar 2)])]
       = [(Str ''a'', Dict [(Str ''b'', Scalar 1), (Str ''c'', Scalar 2)])]"
    by (simp add: deep_merge_def)
next
  assume h: "wf_state (s, nx) \<and> abs_val n s (HRef p) = Some (Dict ta)
      \<and> abs_val n s (HRef q) = Some (Dict tb) \<and> n \<le> n'"
  then obtain s' nx' where call: "deep_merge_h n' (s, nx) p q = Some ((s', nx'), nx)"
      and fresh: "s nx = None" and le: "s \<subseteq>\<^sub>m s'"
      and res: "abs_val n' s' (HRef nx) = Some (Dict (deep_merge ta tb))"
    using deep_merge_h_refines [of s nx n p ta q tb n'] by blast
  have "abs_val n s' (HRef p) = Some (Dict ta)" using h abs_mono(1) [OF le] by blast
  moreover have "abs_val n s' (HRef q) = Some (Dict tb)" using h abs_mono(1) [OF le] by blast
  ultimately show "\<exists>s' nx'. deep_merge_h n' (s, nx) p q = Some ((s', nx'), nx)
          \<and> s nx = None \<and> s \<subseteq>\<^sub>m s'
          \<and> abs_val n' s' (HRef nx) = Some (Dict (deep_merge ta tb))
          \<and> abs_val n s' (HRef p) = Some (Dict ta) \<and> abs_val n s' (HRef q) = Some (Dict tb)"
    using call fresh le res by blast
qed

theorem deep_merge_spec_witness:
  "distinct (dict_keys [(Str ''b'', Iter [Scalar 3]), (Str ''c'', Scalar 4)])
   \<and> dict_get (deep_merge [(Str ''a'', Scalar 1), (Str ''b'', Iter [Scalar 1, Scalar 2])]
                  [(Str ''b'', Iter [Scalar 3]), (Str ''c'', Scalar 4)]) (Str ''b'')
       = Some (Iter [Scalar 3])
   \<and> (case deep_merge_h 2
              (Map.empty(0 \<mapsto> [(Str ''a'', HRef 1)], 1 \<mapsto> [(Str ''b'', HScalar 1)],
                         2 \<mapsto> [(Str ''a'', HRef 3)], 3 \<mapsto> [(Str ''c'', HScalar 2)]), 4) 0 2 of
         None \<Rightarrow> False
       | Some ((s', nx'), r) \<Rightarrow>
           r = 4 \<and> nx' = 6
           \<and> map s' [0, 1, 2, 3, 4, 5]
              = [Some [(Str ''a'', HRef 1)], Some [(Str ''b'', HScalar 1)],
                 Some [(Str ''a'', HRef 3)], Some [(Str ''c'', HScalar 2)],
                 Some [(Str ''a'', HRef 5)], Some [(Str ''b'', HScalar 1), (Str ''c'', HScalar 2)]]
           \<and> abs_val 2 s' (HRef r) = Some (Dict [(Str ''a'', Dict [(Str ''b'', Scalar 1), (Str ''c'', Scalar 2)])]))"
proof -
  let ?s = "Map.empty(0 \<mapsto> [(Str ''a'', HRef 1)], 1 \<mapsto> [(Str ''b'', HScalar 1)],
                      2 \<mapsto> [(Str ''a'', HRef 3)], 3 \<mapsto> [(Str ''c'', HScalar 2)])
              :: store"
  have wf: "wf_state (?s, 4)" by (simp add: wf_state_def)
  have a: "abs_val 2 ?s (HRef 0) = Some (Dict [(Str ''a'', Dict [(Str ''b'', Scalar 1)])])"
    by code_simp
  have b: "abs_val 2 ?s (HRef 2) = Some (Dict [(Str ''a'', Dict [(Str ''c'', Scalar 2)])])"
    by code_simp
  have d: "distinct (dict_keys [(Str ''b'', Iter [Scalar 3]), (Str ''c'', Scalar 4)])"
    by (simp add: dict_keys_def)
  note spec = deep_merge_spec [of "[(Str ''b'', Iter [Scalar 3]), (Str ''c'', Scalar 4)]"
      "[(Str ''a'', Scalar 1), (Str ''b'', Iter [Scalar 1, Scalar 2])]" "Str ''b''"
      ?s 4 2 0 "[(Str ''a'', Dict [(Str ''b'', Scalar 1)])]" 2 "[(Str ''a'', Dict [(Str ''c'', Scalar 2)])]" 2]
  have l: "dict_get (deep_merge [(Str ''a'', Scalar 1), (Str ''b'', Iter [Scalar 1, Scalar 2])]
                  [(Str ''b'', Iter [Scalar 3]), (Str ''c'', Scalar 4)]) (Str ''b'')
       = Some (Iter [Scalar 3])"
    using spec d by simp
  from spec wf a b obtain s' nx' where
      call: "deep_merge_h 2 (?s, 4) 0 2 = Some ((s', nx'), 4)" and le: "?s \<subseteq>\<^sub>m s'"
      and res: "abs_val 2 s' (HRef 4) = Some (Dict (deep_merge [(Str ''a'', Dict [(Str ''b'', Scalar 1)])]
                   [(Str ''a'', Dict [(Str ''c'', Scalar 2)])]))"
    by auto
  have ev: "(case deep_merge_h 2 (?s, 4) 0 2 of None \<Rightarrow> False
       | Some ((s', nx'), r) \<Rightarrow>
           r = 4 \<and> nx' = 6
           \<and> map s' [0, 1, 2, 3, 4, 5]
              = [Some [(Str ''a'', HRef 1)], Some [(Str ''b'', HScalar 1)],
                 Some [(Str ''a'', HRef 3)], Some [(Str ''c'', HScalar 2)],
                 Some [(Str ''a'', HRef 5)], Some [(Str ''b'', HScalar 1), (Str ''c'', HScalar 2)]])"
    by code_simp
  have "deep_merge [(Str ''a'', Dict [(Str ''b'', Scalar 1)])] [(Str ''a'', Dict [(Str ''c'', Scalar 2)])]
       = [(Str ''a'', Dict [(Str ''b'', Scalar 1), (Str ''c'', Scalar 2)])]"
    using spec by simp
  then show ?thesis using d l call res ev by simp
qed

subsection \<open>is_valid_credit_card\<close>

lemma luhn_loop_sum:
  "luhn_loop c ds = c + sum_list (map (\<lambda>d. if 2 * d > 9 then 2 * d - 9 else 2 * d) ds)"
  by (induction ds arbitrary: c) (simp_all add: Let_def mult.commute)

lemma every_second_Cons: "every_second (y # r) = y # every_second (drop 1 r)"
  by (cases r) simp_all

lemma parity_sum_step:
  fixes f g :: "'a \<Rightarrow> int"
  shows "sum_list (map (\<lambda>i. if odd (i + 1) then f ((x # y # r) ! i) else g ((x # y # r) ! i)) [0..<length (x # y # r)])
   = f x + g y + sum_list (map (\<lambda>i. if odd (i + 1) then f (r ! i) else g (r ! i)) [0..<length r])"
proof -
  have "[0..<length (x # y # r)] = 0 # 1 # map (\<lambda>i. Suc (Suc i)) [0..<length r]"
    by (simp add: upt_conv_Cons map_Suc_upt [symmetric] del: upt_Suc)
  then show ?thesis
    by (simp add: comp_def del: upt_Suc cong: if_cong)
qed

lemma parity_sum:
  fixes f g :: "'a \<Rightarrow> int"
  shows "sum_list (map f (every_second r)) + sum_list (map g (every_second (drop 1 r)))
   = sum_list (map (\<lambda>i. if odd (i + 1) then f (r ! i) else g (r ! i)) [0..<length r])"
proof (induction r rule: every_second.induct)
  case 1
  then show ?case by simp
next
  case (2 x)
  then show ?case by simp
next
  case (3 x y rest)
  show ?case
    unfolding parity_sum_step using 3 by (simp add: every_second_Cons)
qed

lemma luhn_code_eq_spec:
  "luhn_loop (sum_list (odd_digits digits)) (even_digits digits) = spec_luhn_sum digits"
  using parity_sum [of "\<lambda>d. d" "rev digits" "\<lambda>d. if 2 * d > 9 then 2 * d - 9 else 2 * d"]
  by (simp add: luhn_loop_sum odd_digits_def even_digits_def spec_luhn_sum_def Let_def)

lemma digits_of_converted:
  "list_all2 (\<lambda>c v. py_int db c = Some v) s ds \<Longrightarrow> digits_of db s = Inr ds"
  by (induction s ds rule: list_all2_induct) simp_all

text \<open>
  The validator consults the tables at the characters of its input only.
\<close>

lemma digits_of_cong:
  "\<forall>c \<in> set s. py_int db c = py_int db' c \<Longrightarrow> digits_of db s = digits_of db' s"
  by (induction s) (simp_all cong: option.case_cong)

lemma is_valid_credit_card_local:
  assumes "\<forall>c \<in> set s. py_isspace db c = py_isspace db' c \<and> py_isdigit db c = py_isdigit db' c
              \<and> py_int db c = py_int db' c"
  shows "is_valid_credit_card db s = is_valid_credit_card db' s"
proof -
  have c: "cleaned_of db s = cleaned_of db' s"
    unfolding cleaned_of_def using assms by (intro filter_cong) auto
  have sub: "set (cleaned_of db' s) \<subseteq> set s" by (auto simp: cleaned_of_def)
  have d: "str_isdigit db (cleaned_of db' s) = str_isdigit db' (cleaned_of db' s)"
    using assms sub by (auto simp: str_isdigit_def list_all_iff)
  have i: "digits_of db (cleaned_of db' s) = digits_of db' (cleaned_of db' s)"
    using assms sub by (intro digits_of_cong) auto
  show ?thesis
    by (simp add: is_valid_credit_card_def c d i Let_def)
qed

text \<open>
  The claim C1 as it is written strips spaces and dashes only and rejects every other
  character that is not a digit. The source strips all white space (\<^verbatim>\<open>\s\<close>): a card
  number followed by a tab (code point 9) is valid for the code and invalid for the
  claim.
\<close>

theorem credit_card_whitespace_counterexample:
  "is_valid_credit_card latin1_ucd (codepoints ''4532015112830366'' @ [9]) = Inr True
   \<and> spec_is_valid_credit_card (codepoints ''4532015112830366'' @ [9]) = False"
  by (simp add: is_valid_credit_card_def spec_is_valid_credit_card_def cleaned_of_def str_isdigit_def latin1_ucd_def codepoints_def odd_digits_def even_digits_def spec_luhn_sum_def Let_def)

text \<open>
  \<^verbatim>\<open>str.isdigit\<close> lets the superscript digits through and \<^verbatim>\<open>int\<close> then raises: on
  thirteen characters U+00B2 the validator does not return. The amended claim below
  says nothing about such inputs.
\<close>

lemma credit_card_superscript_digits:
  "str_isdigit latin1_ucd [178, 178, 178, 178, 178, 178, 178, 178, 178, 178, 178, 178, 178]
   \<and> is_valid_credit_card latin1_ucd [178, 178, 178, 178, 178, 178, 178, 178, 178, 178, 178, 178, 178] = Inl ValueError"
  by (simp add: is_valid_credit_card_def cleaned_of_def str_isdigit_def latin1_ucd_def)

text \<open>
  Claim C1, amended. For every string, over all code points and whatever the tables of
  the runtime are, \<open>is_valid_credit_card\<close> strips white space (the characters of
  \<^verbatim>\<open>\s\<close>) and dashes. It returns false if the stripped string holds a character that
  \<^verbatim>\<open>str.isdigit\<close> rejects or if its length is outside \<open>[13, 19]\<close>. If the stripped
  string consists of 13 to 19 decimal digits (characters that \<^verbatim>\<open>str.isdigit\<close> accepts
  and \<^verbatim>\<open>int\<close> converts, \<open>ds\<close> their values), it returns true if and only if the Luhn
  checksum (digits at odd positions from the right unchanged, digits at even positions
  doubled, minus 9 when the double exceeds 9) is divisible by 10. With \<open>0\<close> to \<open>9\<close>
  digits of their value and not white space, it is true on \<open>4532015112830366\<close> and
  false on \<open>1234567890123456\<close>.
\<close>

theorem is_valid_credit_card_spec:
  "((\<not> list_all (py_isdigit db) (cleaned_of db s) \<or> length (cleaned_of db s) < 13
       \<or> length (cleaned_of db s) > 19)
      \<longrightarrow> is_valid_credit_card db s = Inr False)
   \<and> ((list_all (py_isdigit db) (cleaned_of db s)
        \<and> list_all2 (\<lambda>c v. py_int db c = Some v) (cleaned_of db s) ds
        \<and> 13 \<le> length ds \<and> length ds \<le> 19)
      \<longrightarrow> is_valid_credit_card db s = Inr (spec_luhn_sum ds mod 10 = 0))
   \<and> ((\<forall>c. 48 \<le> c \<and> c \<le> 57 \<longrightarrow>
          \<not> py_isspace db c \<and> py_isdigit db c \<and> py_int db c = Some (int c - 48))
      \<longrightarrow> is_valid_credit_card db (codepoints ''4532015112830366'') = Inr True
        \<and> is_valid_credit_card db (codepoints ''1234567890123456'') = Inr False)"
proof (intro conjI impI)
  assume "\<not> list_all (py_isdigit db) (cleaned_of db s) \<or> length (cleaned_of db s) < 13
       \<or> length (cleaned_of db s) > 19"
  then show "is_valid_credit_card db s = Inr False"
    by (auto simp: is_valid_credit_card_def str_isdigit_def Let_def)
next
  assume a: "list_all (py_isdigit db) (cleaned_of db s)
        \<and> list_all2 (\<lambda>c v. py_int db c = Some v) (cleaned_of db s) ds
        \<and> 13 \<le> length ds \<and> length ds \<le> 19"
  then have len: "length (cleaned_of db s) = length ds" by (auto dest: list_all2_lengthD)
  then have ne: "cleaned_of db s \<noteq> []" using a by auto
  then have "s \<noteq> []" by (auto simp: cleaned_of_def)
  moreover have "str_isdigit db (cleaned_of db s)" using a ne by (simp add: str_isdigit_def)
  moreover have "digits_of db (cleaned_of db s) = Inr ds"
    using a by (simp add: digits_of_converted)
  ultimately show "is_valid_credit_card db s = Inr (spec_luhn_sum ds mod 10 = 0)"
    using a len by (simp add: is_valid_credit_card_def luhn_code_eq_spec)
next
  assume ascii: "\<forall>c. 48 \<le> c \<and> c \<le> 57 \<longrightarrow>
          \<not> py_isspace db c \<and> py_isdigit db c \<and> py_int db c = Some (int c - 48)"
  have loc: "is_valid_credit_card db s = is_valid_credit_card latin1_ucd s"
    if "\<forall>c \<in> set s. 48 \<le> c \<and> c \<le> 57" for s
    using that ascii by (intro is_valid_credit_card_local) (auto simp: latin1_ucd_def)
  have "is_valid_credit_card db (codepoints ''4532015112830366'')
      = is_valid_credit_card latin1_ucd (codepoints ''4532015112830366'')"
    by (rule loc) (simp add: codepoints_def)
  also have "\<dots> = Inr True" by (simp add: is_valid_credit_card_def spec_is_valid_credit_card_def cleaned_of_def str_isdigit_def latin1_ucd_def codepoints_def odd_digits_def even_digits_def spec_luhn_sum_def Let_def)
  finally show "is_valid_credit_card db (codepoints ''4532015112830366'') = Inr True" .
  have "is_valid_credit_card db (codepoints ''1234567890123456'')
      = is_valid_credit_card latin1_ucd (codepoints ''1234567890123456'')"
    by (rule loc) (simp add: codepoints_def)
  also have "\<dots> = Inr False" by (simp add: is_valid_credit_card_def spec_is_valid_credit_card_def cleaned_of_def str_isdigit_def latin1_ucd_def codepoints_def odd_digits_def even_digits_def spec_luhn_sum_def Let_def)
  finally show "is_valid_credit_card db (codepoints ''1234567890123456'') = Inr False" .
qed


text \<open>
  Inputs: spaces and a dash among the digits; a letter; the same card number in
  Arabic-Indic digits (U+0660 to U+0669) grouped by em spaces (U+2003), with the
  entries of the tables for these characters; and the two examples of the
  specification.
\<close>

theorem is_valid_credit_card_spec_witness:
  "is_valid_credit_card latin1_ucd (codepoints ''4532 0151-1283 0366'') = Inr True
   \<and> is_valid_credit_card latin1_ucd (codepoints ''4532x015112830366'') = Inr False
   \<and> is_valid_credit_card
         (UCD (\<lambda>n. n = 32 \<or> n = 8195) (\<lambda>n. 1632 \<le> n \<and> n \<le> 1641)
              (\<lambda>n. if 1632 \<le> n \<and> n \<le> 1641 then Some (int n - 1632) else None))
         ([1636, 1637, 1635, 1634, 8195, 1632, 1633, 1637, 1633, 8195, 1633, 1634, 1640, 1635,
           8195, 1632, 1635, 1638, 1638])
       = Inr True
   \<and> is_valid_credit_card latin1_ucd (codepoints ''4532015112830366'') = Inr True
   \<and> is_valid_credit_card latin1_ucd (codepoints ''1234567890123456'') = Inr False"
proof -
  have ascii: "\<forall>c. 48 \<le> c \<and> c \<le> 57 \<longrightarrow>
      \<not> py_isspace latin1_ucd c \<and> py_isdigit latin1_ucd c \<and> py_int latin1_ucd c = Some (int c - 48)"
    by (simp add: latin1_ucd_def)
  have ex: "is_valid_credit_card latin1_ucd (codepoints ''4532015112830366'') = Inr True
      \<and> is_valid_credit_card latin1_ucd (codepoints ''1234567890123456'') = Inr False"
    using is_valid_credit_card_spec [of latin1_ucd "[]" "[]"] ascii by blast
  let ?db = "UCD (\<lambda>n. n = 32 \<or> n = 8195) (\<lambda>n. 1632 \<le> n \<and> n \<le> 1641)
              (\<lambda>n. if 1632 \<le> n \<and> n \<le> 1641 then Some (int n - 1632) else None)"
  let ?s = "[1636, 1637, 1635, 1634, 8195, 1632, 1633, 1637, 1633, 8195, 1633, 1634, 1640, 1635,
           8195, 1632, 1635, 1638, 1638] :: nat list"
  let ?ds = "[4, 5, 3, 2, 0, 1, 5, 1, 1, 2, 8, 3, 0, 3, 6, 6] :: int list"
  have h1: "list_all (py_isdigit latin1_ucd) (cleaned_of latin1_ucd (codepoints ''4532 0151-1283 0366''))
      \<and> list_all2 (\<lambda>c v. py_int latin1_ucd c = Some v)
           (cleaned_of latin1_ucd (codepoints ''4532 0151-1283 0366'')) ?ds
      \<and> 13 \<le> length ?ds \<and> length ?ds \<le> 19"
    by (simp add: cleaned_of_def latin1_ucd_def codepoints_def)
  have h2: "\<not> list_all (py_isdigit latin1_ucd) (cleaned_of latin1_ucd (codepoints ''4532x015112830366''))
      \<or> length (cleaned_of latin1_ucd (codepoints ''4532x015112830366'')) < 13
      \<or> length (cleaned_of latin1_ucd (codepoints ''4532x015112830366'')) > 19"
    by (simp add: cleaned_of_def latin1_ucd_def codepoints_def)
  have h3: "list_all (py_isdigit ?db) (cleaned_of ?db ?s)
      \<and> list_all2 (\<lambda>c v. py_int ?db c = Some v) (cleaned_of ?db ?s) ?ds
      \<and> 13 \<le> length ?ds \<and> length ?ds \<le> 19"
    by (simp add: cleaned_of_def latin1_ucd_def codepoints_def)
  have luhn: "spec_luhn_sum ?ds mod 10 = 0"
    by (simp add: spec_luhn_sum_def upt_rec [of 0] upt_rec [of "Suc _"] Let_def)
  have "is_valid_credit_card latin1_ucd (codepoints ''4532 0151-1283 0366'')
      = Inr (spec_luhn_sum ?ds mod 10 = 0)"
    using is_valid_credit_card_spec [of latin1_ucd "codepoints ''4532 0151-1283 0366''" ?ds] h1
    by blast
  moreover have "is_valid_credit_card latin1_ucd (codepoints ''4532x015112830366'') = Inr False"
    using is_valid_credit_card_spec [of latin1_ucd "codepoints ''4532x015112830366''" ?ds] h2
    by blast
  moreover have "is_valid_credit_card ?db ?s = Inr (spec_luhn_sum ?ds mod 10 = 0)"
    using is_valid_credit_card_spec [of ?db ?s ?ds] h3 by blast
  ultimately show ?thesis using luhn ex by simp
qed

subsection \<open>HttpClient.request\<close>




end
